theory Spec2Isabelle
  imports Main "HOL-Library.AList" "HOL-Library.Multiset" "HOL-Library.Char_ord"
    "HOL-Library.List_Lexorder" "HOL-Library.Sublist"
begin

section \<open>Data model of csp.py\<close>

text \<open>
  Exceptions the modelled code can raise. \<open>KeyError\<close>: subscripting a dict with a missing
  key; \<open>StopIteration\<close>: \<open>first\<close> on an empty sequence; \<open>TypeError\<close>:
  \<open>random.choice(None)\<close> in \<open>argmin_random_tie\<close>; \<open>IndexError\<close>:
  \<open>random.choice\<close> of an empty sequence; \<open>RuntimeError\<close>: the trace cap of
  \<open>log\<close>; \<open>AssertionError\<close>: the sanity check of \<open>backtracking_search\<close>.
\<close>

datatype error = KeyError | StopIteration | TypeError | IndexError | RuntimeError | AssertionError

text \<open>
  A Python dict that the code mutates or whose size or emptiness it reads is an association
  list with the dict's insertion order: \<open>d[k] = v\<close> is \<open>AList.update\<close> (overwrite in
  place, or append a new key), \<open>del d[k]\<close> is \<open>AList.delete\<close>, \<open>d[k]\<close> is
  \<open>map_of d k\<close> with \<open>None\<close> standing for KeyError. The dicts that are only read
  (\<open>domains\<close>, \<open>neighbors\<close>) are maps.
\<close>

type_synonym ('v, 'a) assignment = "('v \<times> 'a) list"
type_synonym ('v, 'a) removals = "('v \<times> 'a) list"

record ('v, 'a) csp =
  variables :: "'v list"
  domains :: "'v \<rightharpoonup> 'a list"
  neighbors :: "'v \<rightharpoonup> 'v list"
  constraints :: "'v \<Rightarrow> 'a \<Rightarrow> 'v \<Rightarrow> 'a \<Rightarrow> bool"
  curr_domains :: "('v \<times> 'a list) list option"
  nassigns :: nat

text \<open>\<open>CSP.__init__\<close>\<close>

definition CSP :: "'v list \<Rightarrow> ('v \<rightharpoonup> 'a list) \<Rightarrow> ('v \<rightharpoonup> 'v list) \<Rightarrow>
    ('v \<Rightarrow> 'a \<Rightarrow> 'v \<Rightarrow> 'a \<Rightarrow> bool) \<Rightarrow> ('v, 'a) csp" where
  "CSP vs ds ns con =
     \<lparr>variables = vs, domains = ds, neighbors = ns, constraints = con,
      curr_domains = None, nassigns = 0\<rparr>"

subsection \<open>Constraint store\<close>

definition assign :: "('v, 'a) csp \<Rightarrow> 'v \<Rightarrow> 'a \<Rightarrow> ('v, 'a) assignment \<Rightarrow>
    ('v, 'a) csp \<times> ('v, 'a) assignment" where
  "assign c var val a = (c\<lparr>nassigns := nassigns c + 1\<rparr>, AList.update var val a)"

definition unassign :: "'v \<Rightarrow> ('v, 'a) assignment \<Rightarrow> ('v, 'a) assignment" where
  "unassign var a = (if map_of a var \<noteq> None then AList.delete var a else a)"

text \<open>\<open>self.neighbors.get(var, [])\<close>\<close>

definition neighbors_get :: "('v, 'a) csp \<Rightarrow> 'v \<Rightarrow> 'v list" where
  "neighbors_get c var = (case neighbors c var of None \<Rightarrow> [] | Some ns \<Rightarrow> ns)"

text \<open>The condition of the loop body of \<open>nconflicts\<close>.\<close>

definition conflicts_with :: "('v, 'a) csp \<Rightarrow> 'v \<Rightarrow> 'a \<Rightarrow> ('v, 'a) assignment \<Rightarrow> 'v \<Rightarrow> bool" where
  "conflicts_with c var val a n =
     (case map_of a n of None \<Rightarrow> False | Some b \<Rightarrow> \<not> constraints c var val n b)"

definition nconflicts :: "('v, 'a) csp \<Rightarrow> 'v \<Rightarrow> 'a \<Rightarrow> ('v, 'a) assignment \<Rightarrow> nat" where
  "nconflicts c var val a = length (filter (conflicts_with c var val a) (neighbors_get c var))"

text \<open>
  The dict comprehension of \<open>support_pruning\<close>: one entry per element of \<open>variables\<close>, in
  order, a repeated variable overwriting its entry; a variable without a domain is a KeyError.
\<close>

fun copy_domains :: "('v \<rightharpoonup> 'a list) \<Rightarrow> 'v list \<Rightarrow> ('v \<times> 'a list) list \<Rightarrow>
    error + ('v \<times> 'a list) list" where
  "copy_domains ds [] acc = Inr acc"
| "copy_domains ds (v # vs) acc =
     (case ds v of None \<Rightarrow> Inl KeyError
      | Some d \<Rightarrow> copy_domains ds vs (AList.update v d acc))"

definition support_pruning :: "('v, 'a) csp \<Rightarrow> error + ('v, 'a) csp" where
  "support_pruning c =
     (case curr_domains c of
        Some cd \<Rightarrow> Inr c
      | None \<Rightarrow> (case copy_domains (domains c) (variables c) [] of
                  Inl e \<Rightarrow> Inl e
                | Inr cd \<Rightarrow> Inr (c\<lparr>curr_domains := Some cd\<rparr>)))"

text \<open>
  \<open>suppose\<close>, \<open>prune\<close> and \<open>restore\<close> on the dict \<open>curr_domains\<close> itself; the methods
  below wrap them with the \<open>assert self.curr_domains is not None\<close>.
\<close>

definition suppose_cd :: "('v \<times> 'a list) list \<Rightarrow> 'v \<Rightarrow> 'a \<Rightarrow>
    error + (('v \<times> 'a list) list \<times> ('v, 'a) removals)" where
  "suppose_cd cd var val =
     (case map_of cd var of
        None \<Rightarrow> Inl KeyError
      | Some d \<Rightarrow> Inr (AList.update var [val] cd, map (Pair var) (filter (\<lambda>v. v \<noteq> val) d)))"

definition suppose :: "('v, 'a) csp \<Rightarrow> 'v \<Rightarrow> 'a \<Rightarrow> error + (('v, 'a) csp \<times> ('v, 'a) removals)" where
  "suppose c var val =
     (case support_pruning c of
        Inl e \<Rightarrow> Inl e
      | Inr c1 \<Rightarrow>
         (case curr_domains c1 of
            None \<Rightarrow> Inl AssertionError
          | Some cd \<Rightarrow>
             (case suppose_cd cd var val of
                Inl e \<Rightarrow> Inl e
              | Inr (cd', removals) \<Rightarrow> Inr (c1\<lparr>curr_domains := Some cd'\<rparr>, removals))))"

definition prune_cd :: "('v \<times> 'a list) list \<Rightarrow> 'v \<Rightarrow> 'a \<Rightarrow> ('v, 'a) removals \<Rightarrow>
    error + (('v \<times> 'a list) list \<times> ('v, 'a) removals)" where
  "prune_cd cd var val removals =
     (case map_of cd var of
        None \<Rightarrow> Inl KeyError
      | Some d \<Rightarrow>
         (if val \<in> set d then Inr (AList.update var (remove1 val d) cd, removals @ [(var, val)])
          else Inr (cd, removals)))"

definition prune :: "('v, 'a) csp \<Rightarrow> 'v \<Rightarrow> 'a \<Rightarrow> ('v, 'a) removals \<Rightarrow>
    error + (('v, 'a) csp \<times> ('v, 'a) removals)" where
  "prune c var val removals =
     (case curr_domains c of
        None \<Rightarrow> Inl AssertionError
      | Some cd \<Rightarrow>
         (case prune_cd cd var val removals of
            Inl e \<Rightarrow> Inl e
          | Inr (cd', removals') \<Rightarrow> Inr (c\<lparr>curr_domains := Some cd'\<rparr>, removals')))"

text \<open>
  \<open>(self.curr_domains or self.domains)[var]\<close>: an empty dict is falsy, so an empty
  \<open>curr_domains\<close> falls back to \<open>domains\<close> as \<open>None\<close> does.
\<close>

definition choices :: "('v, 'a) csp \<Rightarrow> 'v \<Rightarrow> error + 'a list" where
  "choices c var =
     (case (case curr_domains c of
              None \<Rightarrow> domains c var
            | Some cd \<Rightarrow> (if cd = [] then domains c var else map_of cd var)) of
        None \<Rightarrow> Inl KeyError
      | Some d \<Rightarrow> Inr d)"

fun restore_cd :: "('v \<times> 'a list) list \<Rightarrow> ('v, 'a) removals \<Rightarrow> error + ('v \<times> 'a list) list" where
  "restore_cd cd [] = Inr cd"
| "restore_cd cd ((var, val) # rs) =
     (case map_of cd var of
        None \<Rightarrow> Inl KeyError
      | Some d \<Rightarrow> restore_cd (AList.update var (d @ [val]) cd) rs)"

definition restore :: "('v, 'a) csp \<Rightarrow> ('v, 'a) removals \<Rightarrow> error + ('v, 'a) csp" where
  "restore c removals =
     (case curr_domains c of
        None \<Rightarrow> Inl AssertionError
      | Some cd \<Rightarrow>
         (case restore_cd cd removals of
            Inl e \<Rightarrow> Inl e
          | Inr cd' \<Rightarrow> Inr (c\<lparr>curr_domains := Some cd'\<rparr>)))"

subsection \<open>Value ordering\<close>

definition unordered_domain_values :: "'v \<Rightarrow> ('v, 'a) assignment \<Rightarrow> ('v, 'a) csp \<Rightarrow> error + 'a list" where
  "unordered_domain_values var a c = choices c var"

text \<open>
  \<open>sorted(xs, key=k)\<close> is Python's stable sort by key; \<open>sort_key\<close> is insertion sort
  by key.
\<close>

definition lcv :: "'v \<Rightarrow> ('v, 'a) assignment \<Rightarrow> ('v, 'a) csp \<Rightarrow> error + 'a list" where
  "lcv var a c =
     (case choices c var of
        Inl e \<Rightarrow> Inl e
      | Inr d \<Rightarrow> Inr (sort_key (\<lambda>val. nconflicts c var val a) d))"

subsection \<open>Variable selection\<close>

text \<open>\<open>first\<close>: \<open>next(iter(seq))\<close> raises StopIteration on an empty sequence.\<close>

definition first :: "'x list \<Rightarrow> error + 'x" where
  "first seq = (case seq of [] \<Rightarrow> Inl StopIteration | x # _ \<Rightarrow> Inr x)"

text \<open>
  The state of Python's global random generator is the stream of raw numbers it will still
  deliver; \<open>random.choice(seq)\<close> is \<open>seq[randbelow(len(seq))]\<close>, an IndexError on an
  empty sequence, and advances the generator.
\<close>

type_synonym rng = "nat \<Rightarrow> nat"

definition random_choice :: "rng \<Rightarrow> 'x list \<Rightarrow> error + ('x \<times> rng)" where
  "random_choice g xs =
     (if xs = [] then Inl IndexError else Inr (xs ! (g 0 mod length xs), \<lambda>i. g (Suc i)))"

text \<open>
  A variable selector may read the global random generator, so it takes the generator's state
  and returns the new one.
\<close>

type_synonym ('v, 'a) selector =
  "('v, 'a) assignment \<Rightarrow> ('v, 'a) csp \<Rightarrow> rng \<Rightarrow> error + ('v \<times> rng)"
type_synonym ('v, 'a) orderer =
  "'v \<Rightarrow> ('v, 'a) assignment \<Rightarrow> ('v, 'a) csp \<Rightarrow> error + 'a list"
type_synonym ('v, 'a) inference_fn =
  "('v, 'a) csp \<Rightarrow> 'v \<Rightarrow> 'a \<Rightarrow> ('v, 'a) assignment \<Rightarrow> ('v, 'a) removals \<Rightarrow>
     error + (bool \<times> ('v, 'a) csp \<times> ('v, 'a) removals)"

definition unassigned :: "('v, 'a) assignment \<Rightarrow> ('v, 'a) csp \<Rightarrow> 'v list" where
  "unassigned a c = filter (\<lambda>v. map_of a v = None) (variables c)"

definition first_unassigned_variable :: "('v, 'a) selector" where
  "first_unassigned_variable a c g =
     (case first (unassigned a c) of Inl e \<Rightarrow> Inl e | Inr v \<Rightarrow> Inr (v, g))"

definition count_true :: "bool list \<Rightarrow> nat" where
  "count_true items = length (filter (\<lambda>x. x) items)"

definition num_legal_values :: "('v, 'a) csp \<Rightarrow> 'v \<Rightarrow> ('v, 'a) assignment \<Rightarrow> error + nat" where
  "num_legal_values c var a =
     (case curr_domains c of
        Some cd \<Rightarrow> (case map_of cd var of None \<Rightarrow> Inl KeyError | Some d \<Rightarrow> Inr (length d))
      | None \<Rightarrow>
         (case domains c var of
            None \<Rightarrow> Inl KeyError
          | Some d \<Rightarrow> Inr (count_true (map (\<lambda>val. nconflicts c var val a = 0) d))))"

text \<open>The loop of \<open>argmin_random_tie\<close>; the accumulator is \<open>(best, best_key)\<close>.\<close>

fun argmin_loop :: "('x \<Rightarrow> error + nat) \<Rightarrow> 'x list \<Rightarrow> ('x list \<times> nat) option \<Rightarrow>
    error + ('x list \<times> nat) option" where
  "argmin_loop key [] best = Inr best"
| "argmin_loop key (x # xs) best =
     (case key x of
        Inl e \<Rightarrow> Inl e
      | Inr k \<Rightarrow>
         (case best of
            None \<Rightarrow> argmin_loop key xs (Some ([x], k))
          | Some (b, bk) \<Rightarrow>
             (if k < bk then argmin_loop key xs (Some ([x], k))
              else if k = bk then argmin_loop key xs (Some (b @ [x], bk))
              else argmin_loop key xs (Some (b, bk)))))"

definition argmin_random_tie :: "'x list \<Rightarrow> ('x \<Rightarrow> error + nat) \<Rightarrow> rng \<Rightarrow> error + ('x \<times> rng)" where
  "argmin_random_tie seq key g =
     (case argmin_loop key seq None of
        Inl e \<Rightarrow> Inl e
      | Inr None \<Rightarrow> Inl TypeError
      | Inr (Some (best, bk)) \<Rightarrow> random_choice g best)"

definition mrv :: "('v, 'a) selector" where
  "mrv a c g = argmin_random_tie (unassigned a c) (\<lambda>v. num_legal_values c v a) g"

subsection \<open>Inference\<close>

definition no_inference :: "('v, 'a) inference_fn" where
  "no_inference c var val a removals = Inr (True, c, removals)"

text \<open>The inner loop of \<open>forward_checking\<close> over the copy \<open>list(csp.curr_domains[B])\<close>.\<close>

fun fc_values :: "('v \<Rightarrow> 'a \<Rightarrow> 'v \<Rightarrow> 'a \<Rightarrow> bool) \<Rightarrow> 'v \<Rightarrow> 'a \<Rightarrow> 'v \<Rightarrow> 'a list \<Rightarrow>
    ('v \<times> 'a list) list \<Rightarrow> ('v, 'a) removals \<Rightarrow>
    error + (('v \<times> 'a list) list \<times> ('v, 'a) removals)" where
  "fc_values con var val B [] cd removals = Inr (cd, removals)"
| "fc_values con var val B (b # bs) cd removals =
     (if \<not> con var val B b then
        (case prune_cd cd B b removals of
           Inl e \<Rightarrow> Inl e
         | Inr (cd', removals') \<Rightarrow> fc_values con var val B bs cd' removals')
      else fc_values con var val B bs cd removals)"

text \<open>The outer loop of \<open>forward_checking\<close> over the neighbours of \<open>var\<close>.\<close>

fun fc_neighbors :: "('v \<Rightarrow> 'a \<Rightarrow> 'v \<Rightarrow> 'a \<Rightarrow> bool) \<Rightarrow> 'v \<Rightarrow> 'a \<Rightarrow> ('v, 'a) assignment \<Rightarrow>
    'v list \<Rightarrow> ('v \<times> 'a list) list \<Rightarrow> ('v, 'a) removals \<Rightarrow>
    error + (bool \<times> ('v \<times> 'a list) list \<times> ('v, 'a) removals)" where
  "fc_neighbors con var val a [] cd removals = Inr (True, cd, removals)"
| "fc_neighbors con var val a (B # Bs) cd removals =
     (if map_of a B \<noteq> None then fc_neighbors con var val a Bs cd removals
      else
        (case map_of cd B of
           None \<Rightarrow> Inl KeyError
         | Some d \<Rightarrow>
            (case fc_values con var val B d cd removals of
               Inl e \<Rightarrow> Inl e
             | Inr (cd', removals') \<Rightarrow>
                (case map_of cd' B of
                   None \<Rightarrow> Inl KeyError
                 | Some d' \<Rightarrow>
                    (if d' = [] then Inr (False, cd', removals')
                     else fc_neighbors con var val a Bs cd' removals')))))"

definition forward_checking :: "('v, 'a) inference_fn" where
  "forward_checking c var val a removals =
     (case support_pruning c of
        Inl e \<Rightarrow> Inl e
      | Inr c1 \<Rightarrow>
         (case curr_domains c1 of
            None \<Rightarrow> Inl AssertionError
          | Some cd \<Rightarrow>
             (case fc_neighbors (constraints c1) var val a (neighbors_get c1 var) cd removals of
                Inl e \<Rightarrow> Inl e
              | Inr (ok, cd', removals') \<Rightarrow> Inr (ok, c1\<lparr>curr_domains := Some cd'\<rparr>, removals'))))"

subsection \<open>Backtracking search\<close>

datatype event_kind = TRY | CONFLICT | ASSIGN | INFER_FAIL | BACKTRACK | GOAL

record ('v, 'a) trace_event =
  ev_step :: nat
  ev_depth :: nat
  ev_event :: event_kind
  ev_var :: "'v option"
  ev_val :: "'a option"
  ev_assignment :: "('v, 'a) assignment"

text \<open>
  What a run of \<open>backtracking_search\<close> mutates: the CSP object, the caller's trace list
  (\<open>None\<close> when no trace was passed), the closure variable \<open>step\<close> and the global random
  generator. The assignment dict is threaded beside it.
\<close>

record ('v, 'a) search_state =
  csp_of :: "('v, 'a) csp"
  trace :: "('v, 'a) trace_event list option"
  step :: nat
  rng :: rng

text \<open>The arguments of \<open>backtracking_search\<close> that a run only reads.\<close>

record ('v, 'a) params =
  select_unassigned_variable :: "('v, 'a) selector"
  order_domain_values :: "('v, 'a) orderer"
  inference :: "('v, 'a) inference_fn"
  max_steps :: "int option"

definition log :: "('v, 'a) params \<Rightarrow> event_kind \<Rightarrow> ('v, 'a) assignment \<Rightarrow> 'v option \<Rightarrow> 'a option \<Rightarrow>
    ('v, 'a) search_state \<Rightarrow> error + ('v, 'a) search_state" where
  "log P event a var val st =
     (case trace st of
        None \<Rightarrow> Inr st
      | Some tr \<Rightarrow>
         (let s = step st + 1 in
          if (case max_steps P of None \<Rightarrow> False | Some m \<Rightarrow> int s > m) then Inl RuntimeError
          else Inr (st\<lparr>step := s,
                 trace := Some (tr @ [\<lparr>ev_step = s, ev_depth = length a, ev_event = event,
                                       ev_var = var, ev_val = val, ev_assignment = a\<rparr>])\<rparr>)))"

text \<open>The generator of \<open>all(...)\<close> in \<open>is_goal\<close>, which stops at the first false item.\<close>

fun all_no_conflicts :: "('v, 'a) csp \<Rightarrow> ('v, 'a) assignment \<Rightarrow> 'v list \<Rightarrow> error + bool" where
  "all_no_conflicts c a [] = Inr True"
| "all_no_conflicts c a (v # vs) =
     (case map_of a v of
        None \<Rightarrow> Inl KeyError
      | Some x \<Rightarrow> (if nconflicts c v x a = 0 then all_no_conflicts c a vs else Inr False))"

definition is_goal :: "('v, 'a) csp \<Rightarrow> ('v, 'a) assignment \<Rightarrow> error + bool" where
  "is_goal c a =
     (if length a \<noteq> length (variables c) then Inr False
      else all_no_conflicts c a (variables c))"

text \<open>
  One pass through the body of the \<open>for value in ...\<close> loop of \<open>backtrack\<close> up to the
  recursive call: TRY, the conflict test, \<open>assign\<close>, ASSIGN, \<open>suppose\<close>, the inference
  and, where it fails, INFER_FAIL.
\<close>

datatype ('v, 'a) attempt =
    Conflict "('v, 'a) search_state"
  | Descend "('v, 'a) search_state" "('v, 'a) assignment" "('v, 'a) removals"
  | Failed "('v, 'a) search_state" "('v, 'a) assignment" "('v, 'a) removals"

definition try_value :: "('v, 'a) params \<Rightarrow> 'v \<Rightarrow> 'a \<Rightarrow> ('v, 'a) search_state \<Rightarrow>
    ('v, 'a) assignment \<Rightarrow> error + ('v, 'a) attempt" where
  "try_value P var val st a =
     (case log P TRY a (Some var) (Some val) st of
        Inl e \<Rightarrow> Inl e
      | Inr st1 \<Rightarrow>
         (if nconflicts (csp_of st1) var val a \<noteq> 0 then
            (case log P CONFLICT a (Some var) (Some val) st1 of
               Inl e \<Rightarrow> Inl e
             | Inr st2 \<Rightarrow> Inr (Conflict st2))
          else
            (case assign (csp_of st1) var val a of
               (c1, a1) \<Rightarrow>
                (case log P ASSIGN a1 (Some var) (Some val) (st1\<lparr>csp_of := c1\<rparr>) of
                   Inl e \<Rightarrow> Inl e
                 | Inr st2 \<Rightarrow>
                    (case suppose (csp_of st2) var val of
                       Inl e \<Rightarrow> Inl e
                     | Inr (c2, removals) \<Rightarrow>
                        (case inference P c2 var val a1 removals of
                           Inl e \<Rightarrow> Inl e
                         | Inr (ok, c3, removals') \<Rightarrow>
                            (if ok then Inr (Descend (st2\<lparr>csp_of := c3\<rparr>) a1 removals')
                             else
                               (case log P INFER_FAIL a1 (Some var) (Some val) (st2\<lparr>csp_of := c3\<rparr>) of
                                  Inl e \<Rightarrow> Inl e
                                | Inr st3 \<Rightarrow> Inr (Failed st3 a1 removals')))))))))"

text \<open>The end of the loop body: \<open>restore\<close>, \<open>unassign\<close>, BACKTRACK.\<close>

definition undo_value :: "('v, 'a) params \<Rightarrow> 'v \<Rightarrow> 'a \<Rightarrow> ('v, 'a) removals \<Rightarrow> ('v, 'a) search_state \<Rightarrow>
    ('v, 'a) assignment \<Rightarrow> error + (('v, 'a) search_state \<times> ('v, 'a) assignment)" where
  "undo_value P var val removals st a =
     (case restore (csp_of st) removals of
        Inl e \<Rightarrow> Inl e
      | Inr c1 \<Rightarrow>
         (let a1 = unassign var a in
          case log P BACKTRACK a1 (Some var) (Some val) (st\<lparr>csp_of := c1\<rparr>) of
            Inl e \<Rightarrow> Inl e
          | Inr st1 \<Rightarrow> Inr (st1, a1)))"

text \<open>
  \<open>backtrack\<close> with its loop over the ordered values. The first argument bounds the depth
  of the recursion; the result \<open>None\<close> means that the bound was reached, \<open>Some (Inl e)\<close>
  that \<open>e\<close> was raised, \<open>Some (Inr (r, st, a))\<close> that \<open>r\<close> was returned (\<open>None\<close> for
  Python's \<open>None\<close>, \<open>Some d\<close> for the copy \<open>dict(assignment)\<close>) in state \<open>st\<close> with
  the assignment dict holding \<open>a\<close>.
\<close>

type_synonym ('v, 'a) outcome =
  "(error + (('v, 'a) assignment option \<times> ('v, 'a) search_state \<times> ('v, 'a) assignment)) option"

fun backtrack :: "nat \<Rightarrow> ('v, 'a) params \<Rightarrow> ('v, 'a) search_state \<Rightarrow> ('v, 'a) assignment \<Rightarrow>
    ('v, 'a) outcome"
and try_values :: "nat \<Rightarrow> ('v, 'a) params \<Rightarrow> 'v \<Rightarrow> 'a list \<Rightarrow> ('v, 'a) search_state \<Rightarrow>
    ('v, 'a) assignment \<Rightarrow> ('v, 'a) outcome" where
  "backtrack 0 P st a = None"
| "backtrack (Suc n) P st a =
     (if length a = length (variables (csp_of st)) then
        (case log P GOAL a None None st of
           Inl e \<Rightarrow> Some (Inl e)
         | Inr st1 \<Rightarrow> Some (Inr (Some a, st1, a)))
      else
        (case select_unassigned_variable P a (csp_of st) (rng st) of
           Inl e \<Rightarrow> Some (Inl e)
         | Inr (var, g) \<Rightarrow>
            (case order_domain_values P var a (csp_of st) of
               Inl e \<Rightarrow> Some (Inl e)
             | Inr vals \<Rightarrow> try_values n P var vals (st\<lparr>rng := g\<rparr>) a)))"
| "try_values n P var [] st a = Some (Inr (None, st, a))"
| "try_values n P var (val # rest) st a =
     (case try_value P var val st a of
        Inl e \<Rightarrow> Some (Inl e)
      | Inr (Conflict st1) \<Rightarrow> try_values n P var rest st1 a
      | Inr (Failed st1 a1 removals) \<Rightarrow>
         (case undo_value P var val removals st1 a1 of
            Inl e \<Rightarrow> Some (Inl e)
          | Inr (st2, a2) \<Rightarrow> try_values n P var rest st2 a2)
      | Inr (Descend st1 a1 removals) \<Rightarrow>
         (case backtrack n P st1 a1 of
            None \<Rightarrow> None
          | Some (Inl e) \<Rightarrow> Some (Inl e)
          | Some (Inr (Some r, st2, a2)) \<Rightarrow> Some (Inr (Some r, st2, a2))
          | Some (Inr (None, st2, a2)) \<Rightarrow>
             (case undo_value P var val removals st2 a2 of
                Inl e \<Rightarrow> Some (Inl e)
              | Inr (st3, a3) \<Rightarrow> try_values n P var rest st3 a3)))"

text \<open>
  \<open>backtracking_search\<close>: the call \<open>backtrack({})\<close> and the sanity check. The result
  carries the final state, as the caller sees the mutated CSP object and trace list.
\<close>

definition backtracking_search :: "nat \<Rightarrow> ('v, 'a) csp \<Rightarrow> ('v, 'a) selector \<Rightarrow> ('v, 'a) orderer \<Rightarrow>
    ('v, 'a) inference_fn \<Rightarrow> ('v, 'a) trace_event list option \<Rightarrow> int option \<Rightarrow> rng \<Rightarrow>
    (error + (('v, 'a) assignment option \<times> ('v, 'a) search_state)) option" where
  "backtracking_search fuel c sel ordr infr tr ms g =
     (case backtrack fuel
             \<lparr>select_unassigned_variable = sel, order_domain_values = ordr, inference = infr,
              max_steps = ms\<rparr>
             \<lparr>csp_of = c, trace = tr, step = 0, rng = g\<rparr> [] of
        None \<Rightarrow> None
      | Some (Inl e) \<Rightarrow> Some (Inl e)
      | Some (Inr (None, st, a)) \<Rightarrow> Some (Inr (None, st))
      | Some (Inr (Some r, st, a)) \<Rightarrow>
         (case is_goal (csp_of st) r of
            Inl e \<Rightarrow> Some (Inl e)
          | Inr ok \<Rightarrow> (if \<not> ok then Some (Inl AssertionError) else Some (Inr (Some r, st)))))"

subsection \<open>Map colouring\<close>

definition different_values_constraint :: "'v \<Rightarrow> 'a \<Rightarrow> 'v \<Rightarrow> 'a \<Rightarrow> bool" where
  "different_values_constraint A a B b = (a \<noteq> b)"

text \<open>
  Strings are lists of code points below 256; the white space of \<open>str.strip\<close> and
  \<open>str.split\<close> in that range.
\<close>

definition is_space :: "char \<Rightarrow> bool" where
  "is_space ch = ((of_char ch :: nat) \<in> {9, 10, 11, 12, 13, 28, 29, 30, 31, 32, 133, 160})"

definition strip :: "string \<Rightarrow> string" where
  "strip s = dropWhile is_space (rev (dropWhile is_space (rev s)))"

text \<open>\<open>s.split(sep)\<close> for a one-character separator.\<close>

fun split_on :: "char \<Rightarrow> string \<Rightarrow> string list" where
  "split_on sep [] = [[]]"
| "split_on sep (ch # s) =
     (if ch = sep then [] # split_on sep s
      else (case split_on sep s of [] \<Rightarrow> [[ch]] | w # ws \<Rightarrow> (ch # w) # ws))"

text \<open>\<open>s.split()\<close>: the maximal runs without white space; the first argument is the run read so far.\<close>

fun split_ws_from :: "string \<Rightarrow> string \<Rightarrow> string list" where
  "split_ws_from cur [] = (if cur = [] then [] else [cur])"
| "split_ws_from cur (ch # s) =
     (if is_space ch then (if cur = [] then split_ws_from [] s else cur # split_ws_from [] s)
      else split_ws_from (cur @ [ch]) s)"

definition split_ws :: "string \<Rightarrow> string list" where
  "split_ws s = split_ws_from [] s"

text \<open>\<open>graph[k].append(x)\<close> on the \<open>defaultdict(list)\<close>.\<close>

definition graph_append :: "string \<Rightarrow> string \<Rightarrow> (string \<times> string list) list \<Rightarrow> (string \<times> string list) list" where
  "graph_append k x graph =
     AList.update k ((case map_of graph k of None \<Rightarrow> [] | Some l \<Rightarrow> l) @ [x]) graph"

fun add_edges :: "string \<Rightarrow> string list \<Rightarrow> (string \<times> string list) list \<Rightarrow> (string \<times> string list) list" where
  "add_edges A [] graph = graph"
| "add_edges A (B # Bs) graph = add_edges A Bs (graph_append B A (graph_append A B graph))"

fun parse_specs :: "string list \<Rightarrow> (string \<times> string list) list \<Rightarrow> (string \<times> string list) list" where
  "parse_specs [] graph = graph"
| "parse_specs (spec # specs) graph =
     (if CHR '':'' \<notin> set spec then parse_specs specs graph
      else parse_specs specs
             (add_edges (strip (takeWhile (\<lambda>ch. ch \<noteq> CHR '':'') spec))
                (split_ws (tl (dropWhile (\<lambda>ch. ch \<noteq> CHR '':'') spec))) graph))"

definition parse_neighbors :: "string \<Rightarrow> (string \<times> string list) list" where
  "parse_neighbors text =
     map (\<lambda>(k, v). (k, sort (remdups v)))
       (parse_specs (filter (\<lambda>spec. spec \<noteq> []) (map strip (split_on CHR '';'' text))) [])"

text \<open>
  \<open>MapColoringCSP\<close>; the argument \<open>neighbors\<close> is a dict (\<open>Inl\<close>, in key order) or a
  string (\<open>Inr\<close>).
\<close>

definition MapColoringCSP :: "'a list \<Rightarrow> (string \<times> string list) list + string \<Rightarrow> (string, 'a) csp" where
  "MapColoringCSP colors nbs =
     (let nb = (case nbs of Inl d \<Rightarrow> d | Inr text \<Rightarrow> parse_neighbors text);
          vs = map fst nb
      in CSP vs (map_of (map (\<lambda>v. (v, colors)) vs)) (map_of nb) different_values_constraint)"

subsection \<open>The solve entry point of coloring_map.py\<close>

text \<open>
  \<open>solve_map_coloring\<close>; \<open>max_steps = None\<close> stands for a call that leaves the parameter
  out, \<open>log_events\<close> is the optional set of event kinds to keep.
\<close>

definition solve_map_coloring :: "nat \<Rightarrow> (string \<times> string list) list \<Rightarrow> string \<Rightarrow> int option \<Rightarrow>
    event_kind set option \<Rightarrow> rng \<Rightarrow>
    (error + ((string, char) assignment option \<times> (string, char) trace_event list)) option" where
  "solve_map_coloring fuel neighbor_dict domain_letters max_steps_arg log_events g =
     (let max_steps = (case max_steps_arg of None \<Rightarrow> 50000 | Some m \<Rightarrow> m);
          regions_csp = MapColoringCSP domain_letters (Inl neighbor_dict)
      in case backtracking_search fuel regions_csp mrv lcv forward_checking (Some [])
                (Some max_steps) g of
           None \<Rightarrow> None
         | Some (Inl e) \<Rightarrow> Some (Inl e)
         | Some (Inr (solution, st)) \<Rightarrow>
            (let tr = (case trace st of None \<Rightarrow> [] | Some t \<Rightarrow> t)
             in Some (Inr (solution,
                  (case log_events of None \<Rightarrow> tr
                   | Some evs \<Rightarrow> filter (\<lambda>t. ev_event t \<in> evs) tr)))))"

subsection \<open>Vocabulary of the properties\<close>

text \<open>The list a dict of lists holds for a key, empty where the key is missing.\<close>

definition adjacency :: "('k \<times> 'x list) list \<Rightarrow> 'k \<Rightarrow> 'x list" where
  "adjacency graph k = (case map_of graph k of None \<Rightarrow> [] | Some l \<Rightarrow> l)"

text \<open>Two small map-colouring problems used as concrete inputs.\<close>

definition two_regions :: "(string, char) csp" where
  "two_regions = MapColoringCSP ''RGB'' (Inl [(''A'', [''B'']), (''B'', [''A''])])"

text \<open>
  A sequence of calls of \<open>suppose\<close> and \<open>prune\<close> that feed one removal log: \<open>prune\<close>
  appends to the log it is given, the list \<open>suppose\<close> returns is appended to it.
\<close>

datatype ('v, 'a) pruning = Suppose 'v 'a | Prune 'v 'a

fun run_prunings :: "('v, 'a) csp \<Rightarrow> ('v, 'a) pruning list \<Rightarrow> ('v, 'a) removals \<Rightarrow>
    error + (('v, 'a) csp \<times> ('v, 'a) removals)" where
  "run_prunings c [] removals = Inr (c, removals)"
| "run_prunings c (Suppose var val # ops) removals =
     (case suppose c var val of
        Inl e \<Rightarrow> Inl e
      | Inr (c', supposed) \<Rightarrow> run_prunings c' ops (removals @ supposed))"
| "run_prunings c (Prune var val # ops) removals =
     (case prune c var val removals of
        Inl e \<Rightarrow> Inl e
      | Inr (c', removals') \<Rightarrow> run_prunings c' ops removals')"

text \<open>
  The working domain and the original domain of a variable, empty where there is none;
  \<open>supposes_present\<close> says that every \<open>suppose\<close> of the sequence is called with a value
  that is in the variable's working domain at that moment.
\<close>

definition working :: "('v, 'a) csp \<Rightarrow> 'v \<Rightarrow> 'a list" where
  "working c v = (case curr_domains c of None \<Rightarrow> [] | Some cd \<Rightarrow> adjacency cd v)"

definition original :: "('v, 'a) csp \<Rightarrow> 'v \<Rightarrow> 'a list" where
  "original c v = (case domains c v of None \<Rightarrow> [] | Some d \<Rightarrow> d)"

fun supposes_present :: "('v, 'a) csp \<Rightarrow> ('v, 'a) pruning list \<Rightarrow> bool" where
  "supposes_present c [] = True"
| "supposes_present c (Suppose var val # ops) =
     (val \<in> set (working c var) \<and>
      (case suppose c var val of Inl e \<Rightarrow> True | Inr (c', supposed) \<Rightarrow> supposes_present c' ops))"
| "supposes_present c (Prune var val # ops) =
     (case prune c var val [] of Inl e \<Rightarrow> True | Inr (c', removals') \<Rightarrow> supposes_present c' ops)"

definition domains_ordered :: "('v, 'a) csp \<Rightarrow> bool" where
  "domains_ordered c = (\<forall>v. subseq (working c v) (original c v))"

definition domains_within :: "('v, 'a) csp \<Rightarrow> bool" where
  "domains_within c = (\<forall>v. mset (working c v) \<subseteq># mset (original c v))"

definition domain_keys :: "('v, 'a) csp \<Rightarrow> 'v list" where
  "domain_keys c = (case curr_domains c of None \<Rightarrow> [] | Some cd \<Rightarrow> map fst cd)"

text \<open>The state of \<open>two_regions\<close> after forward checking \<open>B = R\<close>.\<close>

definition two_regions_pruned :: "(string, char) csp" where
  "two_regions_pruned = two_regions\<lparr>curr_domains := Some [(''A'', ''GB''), (''B'', ''RGB'')]\<rparr>"

text \<open>
  \<open>same_problem\<close>: two states of a CSP object have the same variables, domains,
  neighbours and constraint; \<open>keeps_problem\<close>: an inference function that never changes
  them.
\<close>

definition same_problem :: "('v, 'a) csp \<Rightarrow> ('v, 'a) csp \<Rightarrow> bool" where
  "same_problem c c' =
     (variables c' = variables c \<and> domains c' = domains c \<and> neighbors c' = neighbors c \<and>
      constraints c' = constraints c)"

definition keeps_problem :: "('v, 'a) inference_fn \<Rightarrow> bool" where
  "keeps_problem infr =
     (\<forall>c var val a removals ok c' removals'.
        infr c var val a removals = Inr (ok, c', removals') \<longrightarrow> same_problem c c')"

text \<open>One region that is its own neighbour, one colour.\<close>

definition self_loop :: "(string, char) csp" where
  "self_loop = MapColoringCSP ''R'' (Inl [(''A'', [''A''])])"

text \<open>
  The notation as the specification reads it: an entry \<open>A: B C\<close> declares \<open>A\<close> adjacent
  to \<open>B\<close> and to \<open>C\<close>; an entry without \<open>:\<close> declares nothing. \<open>declared_edges\<close> lists
  the declared pairs of a text, \<open>join_entries\<close> writes entries as one text, separated by
  \<open>;\<close>.
\<close>

definition entry_edges :: "string \<Rightarrow> (string \<times> string) list" where
  "entry_edges spec =
     (if CHR '':'' \<in> set spec
      then map (Pair (strip (takeWhile (\<lambda>ch. ch \<noteq> CHR '':'') spec)))
             (split_ws (tl (dropWhile (\<lambda>ch. ch \<noteq> CHR '':'') spec)))
      else [])"

definition declared_edges :: "string \<Rightarrow> (string \<times> string) list" where
  "declared_edges src =
     concat (map entry_edges (filter (\<lambda>spec. spec \<noteq> []) (map strip (split_on CHR '';'' src))))"

fun join_entries :: "string list \<Rightarrow> string" where
  "join_entries [] = []"
| "join_entries [e] = e"
| "join_entries (e # e' # es) = e @ CHR '';'' # join_entries (e' # es)"

text \<open>Strategies that never raise RuntimeError themselves.\<close>

definition no_runtime_errors :: "('v, 'a) selector \<Rightarrow> ('v, 'a) orderer \<Rightarrow> ('v, 'a) inference_fn \<Rightarrow> bool" where
  "no_runtime_errors sel ordr infr =
     ((\<forall>a c g. sel a c g \<noteq> Inl RuntimeError) \<and> (\<forall>v a c. ordr v a c \<noteq> Inl RuntimeError) \<and>
      (\<forall>c v x a removals. infr c v x a removals \<noteq> Inl RuntimeError))"

text \<open>A run without a trace, and the same run with a trace and a cap of no event.\<close>

definition untraced_run :: "int option \<Rightarrow>
    (error + ((string, char) assignment option \<times> (string, char) search_state)) option" where
  "untraced_run ms = backtracking_search 3 two_regions mrv lcv forward_checking None ms (\<lambda>_. 0)"

definition traced_run :: "int option \<Rightarrow>
    (error + ((string, char) assignment option \<times> (string, char) search_state)) option" where
  "traced_run ms = backtracking_search 3 two_regions mrv lcv forward_checking (Some []) ms (\<lambda>_. 0)"

text \<open>
  What a caller observes of a run: the solution and the trace list (or the error raised, or
  that the depth bound was reached).
\<close>

definition solution_and_trace ::
    "(error + (('v, 'a) assignment option \<times> ('v, 'a) search_state)) option \<Rightarrow>
     (error + (('v, 'a) assignment option \<times> ('v, 'a) trace_event list option)) option" where
  "solution_and_trace res = map_option (map_sum id (\<lambda>(r, st). (r, trace st))) res"

section \<open>Properties\<close>

subsection \<open>Least-constraining-value ordering\<close>

text \<open>
  C8. Whenever the variable has candidate values (\<open>choices\<close> does not raise), \<open>lcv\<close>
  returns exactly these values (as a multiset), in ascending order of their conflict count
  against the assigned neighbours, and values of equal conflict count keep the relative
  order they have in \<open>choices\<close>; \<open>lcv\<close> raises only where \<open>choices\<close> does.
\<close>

theorem lcv_sorted_stable:
  "(case choices c var of
      Inl e \<Rightarrow> lcv var a c = Inl e
    | Inr d \<Rightarrow>
       (\<exists>vals. lcv var a c = Inr vals \<and> mset vals = mset d \<and>
          sorted (map (\<lambda>val. nconflicts c var val a) vals) \<and>
          (\<forall>k. filter (\<lambda>val. nconflicts c var val a = k) vals =
               filter (\<lambda>val. nconflicts c var val a = k) d)))"
  by (simp add: lcv_def sort_key_stable split: sum.split)

theorem lcv_sorted_stable_witness:
  "\<exists>vals. lcv ''B'' [(''A'', CHR ''R'')] two_regions = Inr vals \<and> mset vals = mset ''RGB'' \<and>
      sorted (map (\<lambda>val. nconflicts two_regions ''B'' val [(''A'', CHR ''R'')]) vals) \<and>
      (\<forall>k. filter (\<lambda>val. nconflicts two_regions ''B'' val [(''A'', CHR ''R'')] = k) vals =
           filter (\<lambda>val. nconflicts two_regions ''B'' val [(''A'', CHR ''R'')] = k) ''RGB'')"
  using lcv_sorted_stable[where c = two_regions and var = "''B''" and a = "[(''A'', CHR ''R'')]"]
  by (simp add: choices_def two_regions_def MapColoringCSP_def CSP_def)

subsection \<open>Parsing the textual neighbour notation\<close>

lemma adjacency_graph_append:
  "adjacency (graph_append k x g) k' = (if k' = k then adjacency g k @ [x] else adjacency g k')"
  by (simp add: adjacency_def graph_append_def update_conv')

lemma add_edges_sym:
  "(\<forall>A B. B \<in> set (adjacency g A) \<longleftrightarrow> A \<in> set (adjacency g B)) \<Longrightarrow>
   (\<forall>A B. B \<in> set (adjacency (add_edges X Bs g) A) \<longleftrightarrow> A \<in> set (adjacency (add_edges X Bs g) B))"
proof (induction Bs arbitrary: g)
  case Nil
  then show ?case by simp
next
  case (Cons Y Bs)
  have "\<forall>A B. B \<in> set (adjacency (graph_append Y X (graph_append X Y g)) A) \<longleftrightarrow>
               A \<in> set (adjacency (graph_append Y X (graph_append X Y g)) B)"
    using Cons.prems by (auto simp: adjacency_graph_append)
  from Cons.IH[OF this] show ?case by simp
qed

lemma parse_specs_sym:
  "(\<forall>A B. B \<in> set (adjacency g A) \<longleftrightarrow> A \<in> set (adjacency g B)) \<Longrightarrow>
   (\<forall>A B. B \<in> set (adjacency (parse_specs specs g) A) \<longleftrightarrow> A \<in> set (adjacency (parse_specs specs g) B))"
proof (induction specs arbitrary: g)
  case Nil
  then show ?case by simp
next
  case (Cons s specs)
  show ?case
  proof (cases "CHR '':'' \<in> set s")
    case True
    then show ?thesis using Cons.IH[OF add_edges_sym[OF Cons.prems]] by simp
  next
    case False
    then show ?thesis using Cons.IH[OF Cons.prems] by simp
  qed
qed

lemma map_of_map_snd:
  "map_of (map (\<lambda>(k, v). (k, f v)) g) k = map_option f (map_of g k)"
  by (induction g) auto

lemma adjacency_parse_neighbors:
  "adjacency (parse_neighbors text) k =
   sort (remdups (adjacency (parse_specs (filter (\<lambda>spec. spec \<noteq> []) (map strip (split_on CHR '';'' text))) []) k))"
  by (simp add: adjacency_def parse_neighbors_def map_of_map_snd split: option.split)

lemma parse_neighbors_sym:
  "B \<in> set (adjacency (parse_neighbors text) A) \<longleftrightarrow> A \<in> set (adjacency (parse_neighbors text) B)"
proof -
  have "\<forall>A B. B \<in> set (adjacency ([] :: (string \<times> string list) list) A) \<longleftrightarrow> A \<in> set (adjacency [] B)"
    by (simp add: adjacency_def)
  from parse_specs_sym[OF this] show ?thesis
    by (simp add: adjacency_parse_neighbors)
qed

lemma parse_neighbors_lists:
  "(k, l) \<in> set (parse_neighbors text) \<Longrightarrow> distinct l \<and> sorted l"
  by (auto simp: parse_neighbors_def)

lemma graph_append_keys: "distinct (map fst g) \<Longrightarrow> distinct (map fst (graph_append k x g))"
  by (simp add: graph_append_def distinct_update)

lemma add_edges_keys: "distinct (map fst g) \<Longrightarrow> distinct (map fst (add_edges X Bs g))"
  by (induction Bs arbitrary: g) (simp_all add: graph_append_keys)

lemma parse_specs_keys: "distinct (map fst g) \<Longrightarrow> distinct (map fst (parse_specs specs g))"
  by (induction specs arbitrary: g) (simp_all add: add_edges_keys)

lemma parse_neighbors_keys: "distinct (map fst (parse_neighbors text))"
proof -
  have "fst \<circ> (\<lambda>(k, v). (k, sort (remdups v))) = (fst :: string \<times> string list \<Rightarrow> string)"
    by auto
  then show ?thesis
    using parse_specs_keys[of "[]"] by (simp add: parse_neighbors_def)
qed

lemma split_on_nonempty: "split_on sep s \<noteq> []"
  by (induction s) (auto split: list.splits)

lemma split_on_no_sep: "sep \<notin> set s \<Longrightarrow> split_on sep s = [s]"
  by (induction s) auto

lemma split_on_append: "split_on sep (s @ sep # t) = split_on sep s @ split_on sep t"
  by (induction s) (auto split: list.splits simp: split_on_nonempty)

lemma parse_specs_append: "parse_specs (xs @ ys) g = parse_specs ys (parse_specs xs g)"
  by (induction xs arbitrary: g) auto

lemma set_strip: "set (strip s) \<subseteq> set s"
proof -
  have "set (dropWhile P xs) \<subseteq> set xs" for P and xs :: string
    by (induction xs) auto
  then show ?thesis unfolding strip_def
    by (metis dual_order.trans set_rev)
qed

lemma parse_neighbors_skip:
  assumes "CHR '':'' \<notin> set e" "CHR '';'' \<notin> set e"
  shows "parse_neighbors (s @ CHR '';'' # e @ CHR '';'' # t) = parse_neighbors (s @ CHR '';'' # t)"
proof -
  have "CHR '':'' \<notin> set (strip e)" using assms(1) set_strip by blast
  then show ?thesis
    using assms(2)
    by (simp add: parse_neighbors_def split_on_append split_on_no_sep parse_specs_append)
qed

subsection \<open>Forward checking\<close>

lemma adjacency_update:
  "adjacency (AList.update k v cd) k' = (if k' = k then v else adjacency cd k')"
  by (simp add: adjacency_def update_conv')

lemma fc_values_general:
  assumes "map_of cd B = Some d"
    and "mset (filter (\<lambda>b. \<not> con var val B b) d) = mset (filter (\<lambda>b. \<not> con var val B b) bs)"
  shows "fc_values con var val B bs cd removals =
           Inr (AList.update B (filter (con var val B) d) cd,
                removals @ map (Pair B) (filter (\<lambda>b. \<not> con var val B b) bs))"
  using assms
proof (induction bs arbitrary: cd d removals)
  case Nil
  then have "filter (\<lambda>b. \<not> con var val B b) d = []" by simp
  then have "filter (con var val B) d = d"
    by (simp add: filter_empty_conv)
  with Nil show ?case by (simp add: update_triv)
next
  case (Cons b bs)
  show ?case
  proof (cases "con var val B b")
    case True
    with Cons.prems have "mset (filter (\<lambda>b. \<not> con var val B b) d) = mset (filter (\<lambda>b. \<not> con var val B b) bs)"
      by simp
    from Cons.IH[OF Cons.prems(1) this] True show ?thesis by simp
  next
    case False
    let ?bad = "\<lambda>b. \<not> con var val B b"
    from False Cons.prems(2) have m: "mset (filter ?bad d) = add_mset b (mset (filter ?bad bs))"
      by simp
    then have "b \<in># mset (filter ?bad d)" by simp
    then have bd: "b \<in> set d" by simp
    let ?d1 = "remove1 b d"
    let ?cd1 = "AList.update B ?d1 cd"
    have p: "prune_cd cd B b removals = Inr (?cd1, removals @ [(B, b)])"
      using Cons.prems(1) bd by (simp add: prune_cd_def)
    have k1: "map_of ?cd1 B = Some ?d1" by (simp add: update_conv')
    have "mset (filter ?bad ?d1) = mset (filter ?bad d) - {#b#}"
      by (simp add: filter_remove1)
    with m have m1: "mset (filter ?bad ?d1) = mset (filter ?bad bs)" by simp
    have f: "filter (con var val B) ?d1 = filter (con var val B) d"
      using False by (simp add: filter_remove1 remove1_idem)
    from Cons.IH[OF k1 m1, of "removals @ [(B, b)]"] False p f show ?thesis by simp
  qed
qed

lemma fc_values_result:
  assumes "map_of cd B = Some d"
  shows "fc_values con var val B d cd removals =
           Inr (AList.update B (filter (con var val B) d) cd,
                removals @ map (Pair B) (filter (\<lambda>b. \<not> con var val B b) d))"
  using fc_values_general[OF assms, of con var val d removals] by simp

lemma fc_neighbors_assigned:
  "map_of a B \<noteq> None \<Longrightarrow>
   fc_neighbors con var val a (B # Bs) cd removals = fc_neighbors con var val a Bs cd removals"
  by simp

lemma fc_neighbors_missing:
  "map_of a B = None \<Longrightarrow> map_of cd B = None \<Longrightarrow>
   fc_neighbors con var val a (B # Bs) cd removals = Inl KeyError"
  by simp

lemma fc_neighbors_step:
  assumes "map_of a B = None" "map_of cd B = Some d"
  shows "fc_neighbors con var val a (B # Bs) cd removals =
     (if filter (con var val B) d = []
      then Inr (False, AList.update B [] cd, removals @ map (Pair B) (filter (\<lambda>b. \<not> con var val B b) d))
      else fc_neighbors con var val a Bs (AList.update B (filter (con var val B) d) cd)
             (removals @ map (Pair B) (filter (\<lambda>b. \<not> con var val B b) d)))"
  using assms by (simp add: fc_values_result update_conv')

lemma fc_neighbors_induct_rule [consumes 1, case_names Nil Assigned Emptied Continue]:
  assumes run: "fc_neighbors con var val a nbs cd removals = Inr (res, cd', removals')"
    and nil: "\<And>cd removals. P [] cd removals True cd removals"
    and assigned: "\<And>B Bs cd removals res cd' removals'.
        map_of a B \<noteq> None \<Longrightarrow>
        fc_neighbors con var val a Bs cd removals = Inr (res, cd', removals') \<Longrightarrow>
        P Bs cd removals res cd' removals' \<Longrightarrow> P (B # Bs) cd removals res cd' removals'"
    and emptied: "\<And>B Bs cd removals d.
        map_of a B = None \<Longrightarrow> map_of cd B = Some d \<Longrightarrow> filter (con var val B) d = [] \<Longrightarrow>
        P (B # Bs) cd removals False (AList.update B [] cd)
          (removals @ map (Pair B) (filter (\<lambda>b. \<not> con var val B b) d))"
    and continue: "\<And>B Bs cd removals d res cd' removals'.
        map_of a B = None \<Longrightarrow> map_of cd B = Some d \<Longrightarrow> filter (con var val B) d \<noteq> [] \<Longrightarrow>
        fc_neighbors con var val a Bs (AList.update B (filter (con var val B) d) cd)
          (removals @ map (Pair B) (filter (\<lambda>b. \<not> con var val B b) d)) = Inr (res, cd', removals') \<Longrightarrow>
        P Bs (AList.update B (filter (con var val B) d) cd)
          (removals @ map (Pair B) (filter (\<lambda>b. \<not> con var val B b) d)) res cd' removals' \<Longrightarrow>
        P (B # Bs) cd removals res cd' removals'"
  shows "P nbs cd removals res cd' removals'"
  using run
proof (induction nbs arbitrary: cd removals)
  case Nil
  then show ?case using nil by simp
next
  case (Cons B Bs)
  show ?case
  proof (cases "map_of a B = None")
    case False
    with Cons.prems have r: "fc_neighbors con var val a Bs cd removals = Inr (res, cd', removals')"
      by simp
    from assigned[OF False r Cons.IH[OF r]] show ?thesis .
  next
    case True
    show ?thesis
    proof (cases "map_of cd B")
      case None
      with True Cons.prems show ?thesis by simp
    next
      case (Some d)
      note st = fc_neighbors_step[OF True Some, of con var val Bs removals]
      show ?thesis
      proof (cases "filter (con var val B) d = []")
        case e: True
        with st Cons.prems have "res = False" "cd' = AList.update B [] cd"
          "removals' = removals @ map (Pair B) (filter (\<lambda>b. \<not> con var val B b) d)"
          by simp_all
        with emptied[OF True Some e] show ?thesis by simp
      next
        case ne: False
        with st Cons.prems have r: "fc_neighbors con var val a Bs (AList.update B (filter (con var val B) d) cd)
          (removals @ map (Pair B) (filter (\<lambda>b. \<not> con var val B b) d)) = Inr (res, cd', removals')"
          by simp
        from continue[OF True Some ne r Cons.IH[OF r]] show ?thesis .
      qed
    qed
  qed
qed

lemma map_of_Some_key: "map_of cd B = Some d \<Longrightarrow> B \<in> set (map fst cd)"
  by (force dest: map_of_SomeD)

lemma filter_adjacency_update:
  assumes "map_of cd B = Some d"
  shows "filter (con var val B') (adjacency (AList.update B (filter (con var val B) d) cd) B') =
         filter (con var val B') (adjacency cd B')"
proof (cases "B' = B")
  case True
  have "adjacency cd B = d" using assms by (simp add: adjacency_def)
  with True show ?thesis by (simp add: adjacency_update)
next
  case False
  then show ?thesis by (simp add: adjacency_update)
qed

lemma fc_neighbors_keys:
  assumes "fc_neighbors con var val a nbs cd removals = Inr (res, cd', removals')"
  shows "map fst cd' = map fst cd"
  using assms
proof (induction rule: fc_neighbors_induct_rule)
  case (Emptied B Bs cd removals d)
  then have "B \<in> set (map fst cd)" by (blast intro: map_of_Some_key)
  then show ?case by (simp add: update_keys)
next
  case (Continue B Bs cd removals d res cd' removals')
  then have "B \<in> set (map fst cd)" by (blast intro: map_of_Some_key)
  with Continue show ?case by (simp add: update_keys)
qed simp_all

lemma fc_neighbors_frame:
  assumes "fc_neighbors con var val a nbs cd removals = Inr (res, cd', removals')"
    and "B' \<notin> set nbs \<or> map_of a B' \<noteq> None"
  shows "map_of cd' B' = map_of cd B'"
  using assms
proof (induction rule: fc_neighbors_induct_rule)
  case (Emptied B Bs cd removals d)
  then show ?case by (auto simp: update_conv')
next
  case (Continue B Bs cd removals d res cd' removals')
  then show ?case by (auto simp: update_conv')
qed auto

lemma fc_neighbors_either:
  assumes "fc_neighbors con var val a nbs cd removals = Inr (res, cd', removals')"
  shows "map_of cd' B' = map_of cd B' \<or>
         map_of cd' B' = Some (filter (con var val B') (adjacency cd B'))"
  using assms
proof (induction rule: fc_neighbors_induct_rule)
  case (Emptied B Bs cd removals d)
  then show ?case by (auto simp: update_conv' adjacency_def)
next
  case (Continue B Bs cd removals d res cd' removals')
  then show ?case by (auto simp: update_conv' adjacency_def)
qed auto

lemma fc_neighbors_true:
  assumes "fc_neighbors con var val a nbs cd removals = Inr (res, cd', removals')"
    and "res" and "B' \<in> set nbs" and "map_of a B' = None"
  shows "map_of cd' B' = Some (filter (con var val B') (adjacency cd B')) \<and>
         filter (con var val B') (adjacency cd B') \<noteq> []"
  using assms
proof (induction rule: fc_neighbors_induct_rule)
  case (Continue B Bs cd removals d res cd' removals')
  show ?case
  proof (cases "B' \<in> set Bs")
    case True
    with Continue show ?thesis by (simp add: filter_adjacency_update)
  next
    case False
    with Continue.prems have "B' = B" by simp
    with False Continue.hyps fc_neighbors_frame[OF Continue.hyps(4), of B']
    show ?thesis by (simp add: update_conv' adjacency_def)
  qed
qed auto

lemma fc_neighbors_false:
  assumes "fc_neighbors con var val a nbs cd removals = Inr (res, cd', removals')"
    and "\<not> res"
  shows "\<exists>pre B post. nbs = pre @ B # post \<and> map_of a B = None \<and> map_of cd' B = Some [] \<and>
           filter (con var val B) (adjacency cd B) = [] \<and>
           (\<forall>B' \<in> set pre. map_of a B' = None \<longrightarrow>
              map_of cd' B' = Some (filter (con var val B') (adjacency cd B')) \<and>
              filter (con var val B') (adjacency cd B') \<noteq> []) \<and>
           (\<forall>B'. B' \<notin> set pre \<and> B' \<noteq> B \<longrightarrow> map_of cd' B' = map_of cd B')"
  using assms
proof (induction rule: fc_neighbors_induct_rule)
  case (Nil cd removals)
  then show ?case by simp
next
  case (Assigned B Bs cd removals res cd' removals')
  then obtain pre X post where h: "Bs = pre @ X # post" "map_of a X = None" "map_of cd' X = Some []"
    "filter (con var val X) (adjacency cd X) = []"
    "\<forall>B' \<in> set pre. map_of a B' = None \<longrightarrow>
              map_of cd' B' = Some (filter (con var val B') (adjacency cd B')) \<and>
              filter (con var val B') (adjacency cd B') \<noteq> []"
    "\<forall>B'. B' \<notin> set pre \<and> B' \<noteq> X \<longrightarrow> map_of cd' B' = map_of cd B'"
    by blast
  have "B # Bs = (B # pre) @ X # post" using h(1) by simp
  moreover have "\<forall>B' \<in> set (B # pre). map_of a B' = None \<longrightarrow>
              map_of cd' B' = Some (filter (con var val B') (adjacency cd B')) \<and>
              filter (con var val B') (adjacency cd B') \<noteq> []"
    using h(5) Assigned.hyps(1) by auto
  moreover have "\<forall>B'. B' \<notin> set (B # pre) \<and> B' \<noteq> X \<longrightarrow> map_of cd' B' = map_of cd B'"
    using h(6) by auto
  ultimately show ?case using h(2,3,4) by blast
next
  case (Emptied B Bs cd removals d)
  have "B # Bs = [] @ B # Bs" by simp
  moreover have "map_of (AList.update B [] cd) B = Some []" by (simp add: update_conv')
  moreover have "filter (con var val B) (adjacency cd B) = []"
    using Emptied by (simp add: adjacency_def)
  moreover have "\<forall>B'. B' \<notin> set [] \<and> B' \<noteq> B \<longrightarrow> map_of (AList.update B [] cd) B' = map_of cd B'"
    by (simp add: update_conv')
  ultimately show ?case using Emptied(1) by (metis empty_iff list.set(1))
next
  case (Continue B Bs cd removals d res cd' removals')
  let ?cd1 = "AList.update B (filter (con var val B) d) cd"
  from Continue obtain pre X post where h: "Bs = pre @ X # post" "map_of a X = None" "map_of cd' X = Some []"
    "filter (con var val X) (adjacency ?cd1 X) = []"
    "\<forall>B' \<in> set pre. map_of a B' = None \<longrightarrow>
              map_of cd' B' = Some (filter (con var val B') (adjacency ?cd1 B')) \<and>
              filter (con var val B') (adjacency ?cd1 B') \<noteq> []"
    "\<forall>B'. B' \<notin> set pre \<and> B' \<noteq> X \<longrightarrow> map_of cd' B' = map_of ?cd1 B'"
    by blast
  have adj: "filter (con var val B') (adjacency ?cd1 B') = filter (con var val B') (adjacency cd B')" for B'
    using Continue.hyps(2) by (rule filter_adjacency_update)
  have xb: "X \<noteq> B"
  proof
    assume "X = B"
    with h(4) adj[of B] Continue.hyps(2,3) show False by (simp add: adjacency_def)
  qed
  have "B # Bs = (B # pre) @ X # post" using h(1) by simp
  moreover have "filter (con var val X) (adjacency cd X) = []" using h(4) adj by simp
  moreover have "\<forall>B' \<in> set (B # pre). map_of a B' = None \<longrightarrow>
              map_of cd' B' = Some (filter (con var val B') (adjacency cd B')) \<and>
              filter (con var val B') (adjacency cd B') \<noteq> []"
  proof (intro ballI impI)
    fix B' assume m: "B' \<in> set (B # pre)" and u: "map_of a B' = None"
    show "map_of cd' B' = Some (filter (con var val B') (adjacency cd B')) \<and>
              filter (con var val B') (adjacency cd B') \<noteq> []"
    proof (cases "B' \<in> set pre")
      case True
      with h(5) u adj show ?thesis by simp
    next
      case False
      with m have "B' = B" by simp
      with False xb h(6) Continue.hyps(2,3) show ?thesis
        by (simp add: update_conv' adjacency_def)
    qed
  qed
  moreover have "\<forall>B'. B' \<notin> set (B # pre) \<and> B' \<noteq> X \<longrightarrow> map_of cd' B' = map_of cd B'"
    using h(6) by (auto simp: update_conv')
  ultimately show ?case using h(2,3) by blast
qed

lemma snd_filter_pair:
  "map snd (filter (\<lambda>p. fst p = B') (map (Pair B) xs)) = (if B' = B then xs else [])"
  by (induction xs) auto

lemma fc_neighbors_log:
  assumes "fc_neighbors con var val a nbs cd removals = Inr (res, cd', removals')"
  shows "\<exists>added. removals' = removals @ added \<and>
           (\<forall>B. mset (adjacency cd B) =
                 mset (adjacency cd' B) + mset (map snd (filter (\<lambda>p. fst p = B) added))) \<and>
           (\<forall>p \<in> set added. \<not> con var val (fst p) (snd p) \<and> fst p \<in> set nbs \<and>
                 map_of a (fst p) = None)"
  using assms
proof (induction rule: fc_neighbors_induct_rule)
  case (Nil cd removals)
  then show ?case by simp
next
  case (Assigned B Bs cd removals res cd' removals')
  then show ?case by auto
next
  case (Emptied B Bs cd removals d)
  let ?added = "map (Pair B) (filter (\<lambda>b. \<not> con var val B b) d)"
  have all: "filter (\<lambda>b. \<not> con var val B b) d = d"
    using Emptied(3) by (simp add: filter_empty_conv)
  have "mset (adjacency cd B') =
        mset (adjacency (AList.update B [] cd) B') + mset (map snd (filter (\<lambda>p. fst p = B') ?added))" for B'
    using Emptied(2) all by (simp add: adjacency_update snd_filter_pair) (simp add: adjacency_def)
  moreover have "\<forall>p \<in> set ?added. \<not> con var val (fst p) (snd p) \<and> fst p \<in> set (B # Bs) \<and>
                 map_of a (fst p) = None"
    using Emptied(1) by auto
  ultimately show ?case by blast
next
  case (Continue B Bs cd removals d res cd' removals')
  let ?first = "map (Pair B) (filter (\<lambda>b. \<not> con var val B b) d)"
  let ?cd1 = "AList.update B (filter (con var val B) d) cd"
  from Continue obtain added where h: "removals' = (removals @ ?first) @ added"
    "\<forall>B'. mset (adjacency ?cd1 B') =
          mset (adjacency cd' B') + mset (map snd (filter (\<lambda>p. fst p = B') added))"
    "\<forall>p \<in> set added. \<not> con var val (fst p) (snd p) \<and> fst p \<in> set Bs \<and> map_of a (fst p) = None"
    by blast
  have part: "mset d = mset (filter (con var val B) d) + mset (filter (\<lambda>b. \<not> con var val B b) d)"
    by (induction d) auto
  have "mset (adjacency cd B') =
        mset (adjacency cd' B') + mset (map snd (filter (\<lambda>p. fst p = B') (?first @ added)))" for B'
  proof (cases "B' = B")
    case True
    have e: "map snd (filter (\<lambda>p. fst p = B) (?first @ added)) =
             filter (\<lambda>b. \<not> con var val B b) d @ map snd (filter (\<lambda>p. fst p = B) added)"
      using snd_filter_pair[of B B "filter (\<lambda>b. \<not> con var val B b) d"] by simp
    have "adjacency cd B = d" using Continue.hyps(2) by (simp add: adjacency_def)
    then have "mset (adjacency cd B) =
               mset (filter (con var val B) d) + mset (filter (\<lambda>b. \<not> con var val B b) d)"
      using part by (simp only:)
    also have "mset (filter (con var val B) d) =
               mset (adjacency cd' B) + mset (map snd (filter (\<lambda>p. fst p = B) added))"
      using h(2)[rule_format, of B] by (simp only: adjacency_update simp_thms if_True)
    finally have "mset (adjacency cd B) =
        mset (adjacency cd' B) + (mset (filter (\<lambda>b. \<not> con var val B b) d) +
           mset (map snd (filter (\<lambda>p. fst p = B) added)))"
      by (simp only: ac_simps)
    then show ?thesis unfolding True e by (simp only: mset_append)
  next
    case False
    then have a1: "adjacency ?cd1 B' = adjacency cd B'" by (simp add: adjacency_update)
    have e: "map snd (filter (\<lambda>p. fst p = B') (?first @ added)) =
             map snd (filter (\<lambda>p. fst p = B') added)"
      using False snd_filter_pair[of B' B "filter (\<lambda>b. \<not> con var val B b) d"] by simp
    show ?thesis unfolding e using h(2)[rule_format, of B'] a1 by (simp only:)
  qed
  moreover have "\<forall>p \<in> set (?first @ added). \<not> con var val (fst p) (snd p) \<and>
      fst p \<in> set (B # Bs) \<and> map_of a (fst p) = None"
    using h(3) Continue.hyps(1) by auto
  moreover have "removals' = removals @ (?first @ added)" using h(1) by simp
  ultimately show ?case by blast
qed

lemma fc_neighbors_total:
  assumes "\<forall>B \<in> set nbs. map_of a B = None \<longrightarrow> map_of cd B \<noteq> None"
  shows "\<exists>r. fc_neighbors con var val a nbs cd removals = Inr r"
  using assms
proof (induction nbs arbitrary: cd removals)
  case Nil
  then show ?case by auto
next
  case (Cons B Bs)
  show ?case
  proof (cases "map_of a B = None")
    case False
    then show ?thesis using Cons by simp
  next
    case True
    with Cons.prems obtain d where d: "map_of cd B = Some d" by auto
    have "\<forall>B' \<in> set Bs. map_of a B' = None \<longrightarrow>
            map_of (AList.update B (filter (con var val B) d) cd) B' \<noteq> None"
      using Cons.prems by (simp add: update_conv')
    from Cons.IH[OF this, of "removals @ map (Pair B) (filter (\<lambda>b. \<not> con var val B b) d)"]
    show ?thesis
      unfolding fc_neighbors_step[OF True d] by (cases "filter (con var val B) d = []") auto
  qed
qed

lemma support_pruning_fields:
  assumes "support_pruning c = Inr c1"
  shows "variables c1 = variables c \<and> domains c1 = domains c \<and> neighbors c1 = neighbors c \<and>
         constraints c1 = constraints c \<and> nassigns c1 = nassigns c \<and> curr_domains c1 \<noteq> None \<and>
         (curr_domains c \<noteq> None \<longrightarrow> c1 = c)"
  using assms by (auto simp: support_pruning_def split: option.splits sum.splits)

lemma forward_checking_unfold:
  assumes "forward_checking c var val a removals = Inr (res, c', removals')"
  shows "\<exists>c1 cd cd'. support_pruning c = Inr c1 \<and> curr_domains c1 = Some cd \<and>
           c' = c1\<lparr>curr_domains := Some cd'\<rparr> \<and>
           fc_neighbors (constraints c) var val a (neighbors_get c var) cd removals =
             Inr (res, cd', removals')"
proof -
  from assms obtain c1 where c1: "support_pruning c = Inr c1"
    by (auto simp: forward_checking_def split: sum.splits)
  note f = support_pruning_fields[OF c1]
  have n: "neighbors_get c1 var = neighbors_get c var" using f by (simp add: neighbors_get_def)
  from assms c1 obtain cd where cd: "curr_domains c1 = Some cd"
    by (auto simp: forward_checking_def split: option.splits)
  from assms c1 cd n f show ?thesis
    by (auto simp: forward_checking_def split: sum.splits)
qed

text \<open>
  C3. Whenever \<open>forward_checking\<close> returns (it raises only KeyError, for \<open>var\<close>'s
  unassigned neighbour without a working domain or a variable without a domain): with
  \<open>cd\<close> the working domains before and \<open>cd'\<close> after, the removal log grows by a list
  \<open>added\<close> that holds, per variable, exactly the values removed from its working domain;
  every logged value conflicts with \<open>(var, val)\<close> and belongs to an unassigned neighbour of
  \<open>var\<close>; the domains of assigned variables and of non-neighbours are untouched; on success
  every unassigned neighbour is left with exactly its values that do not conflict, at
  least one; on failure the neighbour list splits at the first neighbour whose domain is
  emptied: those before it are filtered and non-empty, it is empty, and every other domain
  is untouched; and the result is a failure exactly when some unassigned neighbour's
  working domain is empty afterwards.
\<close>

theorem forward_checking_prunes:
  assumes "forward_checking c var val a removals = Inr (res, c', removals')"
  shows "\<exists>c1 cd cd' added.
     support_pruning c = Inr c1 \<and> curr_domains c1 = Some cd \<and>
     c' = c1\<lparr>curr_domains := Some cd'\<rparr> \<and> removals' = removals @ added \<and>
     (\<forall>B. mset (adjacency cd B) =
           mset (adjacency cd' B) + mset (map snd (filter (\<lambda>p. fst p = B) added))) \<and>
     (\<forall>p \<in> set added. \<not> constraints c var val (fst p) (snd p) \<and>
           fst p \<in> set (neighbors_get c var) \<and> map_of a (fst p) = None) \<and>
     (\<forall>B. B \<notin> set (neighbors_get c var) \<or> map_of a B \<noteq> None \<longrightarrow> map_of cd' B = map_of cd B) \<and>
     (res \<longrightarrow> (\<forall>B \<in> set (neighbors_get c var). map_of a B = None \<longrightarrow>
           map_of cd' B = Some (filter (constraints c var val B) (adjacency cd B)) \<and>
           adjacency cd' B \<noteq> [])) \<and>
     (\<not> res \<longrightarrow> (\<exists>pre B post. neighbors_get c var = pre @ B # post \<and> map_of a B = None \<and>
           map_of cd' B = Some [] \<and> filter (constraints c var val B) (adjacency cd B) = [] \<and>
           (\<forall>B' \<in> set pre. map_of a B' = None \<longrightarrow>
              map_of cd' B' = Some (filter (constraints c var val B') (adjacency cd B')) \<and>
              adjacency cd' B' \<noteq> []) \<and>
           (\<forall>B'. B' \<notin> set pre \<and> B' \<noteq> B \<longrightarrow> map_of cd' B' = map_of cd B'))) \<and>
     (\<not> res \<longleftrightarrow> (\<exists>B \<in> set (neighbors_get c var). map_of a B = None \<and> map_of cd' B = Some []))"
proof -
  from forward_checking_unfold[OF assms] obtain c1 cd cd' where
    u: "support_pruning c = Inr c1" "curr_domains c1 = Some cd" "c' = c1\<lparr>curr_domains := Some cd'\<rparr>"
    and run: "fc_neighbors (constraints c) var val a (neighbors_get c var) cd removals =
             Inr (res, cd', removals')"
    by blast
  from fc_neighbors_log[OF run] obtain added where
    l: "removals' = removals @ added"
    "\<forall>B. mset (adjacency cd B) =
           mset (adjacency cd' B) + mset (map snd (filter (\<lambda>p. fst p = B) added))"
    "\<forall>p \<in> set added. \<not> constraints c var val (fst p) (snd p) \<and>
           fst p \<in> set (neighbors_get c var) \<and> map_of a (fst p) = None"
    by blast
  have fr: "\<forall>B. B \<notin> set (neighbors_get c var) \<or> map_of a B \<noteq> None \<longrightarrow> map_of cd' B = map_of cd B"
    using fc_neighbors_frame[OF run] by blast
  have tr: "res \<longrightarrow> (\<forall>B \<in> set (neighbors_get c var). map_of a B = None \<longrightarrow>
           map_of cd' B = Some (filter (constraints c var val B) (adjacency cd B)) \<and>
           adjacency cd' B \<noteq> [])"
    using fc_neighbors_true[OF run] by (simp add: adjacency_def)
  have fl: "\<not> res \<longrightarrow> (\<exists>pre B post. neighbors_get c var = pre @ B # post \<and> map_of a B = None \<and>
           map_of cd' B = Some [] \<and> filter (constraints c var val B) (adjacency cd B) = [] \<and>
           (\<forall>B' \<in> set pre. map_of a B' = None \<longrightarrow>
              map_of cd' B' = Some (filter (constraints c var val B') (adjacency cd B')) \<and>
              adjacency cd' B' \<noteq> []) \<and>
           (\<forall>B'. B' \<notin> set pre \<and> B' \<noteq> B \<longrightarrow> map_of cd' B' = map_of cd B'))"
  proof
    assume nr: "\<not> res"
    from fc_neighbors_false[OF run nr] obtain pre B post where
      h: "neighbors_get c var = pre @ B # post" "map_of a B = None" "map_of cd' B = Some []"
         "filter (constraints c var val B) (adjacency cd B) = []"
         "\<forall>B' \<in> set pre. map_of a B' = None \<longrightarrow>
              map_of cd' B' = Some (filter (constraints c var val B') (adjacency cd B')) \<and>
              filter (constraints c var val B') (adjacency cd B') \<noteq> []"
         "\<forall>B'. B' \<notin> set pre \<and> B' \<noteq> B \<longrightarrow> map_of cd' B' = map_of cd B'"
      by blast
    from h(5) have "\<forall>B' \<in> set pre. map_of a B' = None \<longrightarrow>
              map_of cd' B' = Some (filter (constraints c var val B') (adjacency cd B')) \<and>
              adjacency cd' B' \<noteq> []"
      by (simp add: adjacency_def)
    with h(1,2,3,4,6) show "\<exists>pre B post. neighbors_get c var = pre @ B # post \<and> map_of a B = None \<and>
           map_of cd' B = Some [] \<and> filter (constraints c var val B) (adjacency cd B) = [] \<and>
           (\<forall>B' \<in> set pre. map_of a B' = None \<longrightarrow>
              map_of cd' B' = Some (filter (constraints c var val B') (adjacency cd B')) \<and>
              adjacency cd' B' \<noteq> []) \<and>
           (\<forall>B'. B' \<notin> set pre \<and> B' \<noteq> B \<longrightarrow> map_of cd' B' = map_of cd B')"
      by blast
  qed
  have iff: "\<not> res \<longleftrightarrow> (\<exists>B \<in> set (neighbors_get c var). map_of a B = None \<and> map_of cd' B = Some [])"
  proof
    assume "\<not> res"
    with fl obtain pre B post where "neighbors_get c var = pre @ B # post" "map_of a B = None"
      "map_of cd' B = Some []" by blast
    then show "\<exists>B \<in> set (neighbors_get c var). map_of a B = None \<and> map_of cd' B = Some []"
      by auto
  next
    assume "\<exists>B \<in> set (neighbors_get c var). map_of a B = None \<and> map_of cd' B = Some []"
    then obtain B where b: "B \<in> set (neighbors_get c var)" "map_of a B = None" "map_of cd' B = Some []"
      by blast
    show "\<not> res"
    proof
      assume res
      with tr b have "adjacency cd' B \<noteq> []" by blast
      with b(3) show False by (simp add: adjacency_def)
    qed
  qed
  from u l fr tr fl iff show ?thesis by blast
qed

theorem forward_checking_prunes_witness:
  "forward_checking two_regions ''A'' CHR ''R'' [(''A'', CHR ''R'')] [] =
     Inr (True, two_regions\<lparr>curr_domains := Some [(''A'', ''RGB''), (''B'', ''GB'')]\<rparr>,
          [(''B'', CHR ''R'')]) \<and>
   (\<exists>c1 cd cd' added.
        support_pruning two_regions = Inr c1 \<and> curr_domains c1 = Some cd \<and>
        two_regions\<lparr>curr_domains := Some [(''A'', ''RGB''), (''B'', ''GB'')]\<rparr> = c1\<lparr>curr_domains := Some cd'\<rparr> \<and> [(''B'', CHR ''R'')] = [] @ added \<and>
        (\<forall>B. mset (adjacency cd B) =
              mset (adjacency cd' B) + mset (map snd (filter (\<lambda>p. fst p = B) added))) \<and>
        (\<forall>p \<in> set added. \<not> constraints two_regions ''A'' CHR ''R'' (fst p) (snd p) \<and>
              fst p \<in> set (neighbors_get two_regions ''A'') \<and> map_of [(''A'', CHR ''R'')] (fst p) = None) \<and>
        (\<forall>B. B \<notin> set (neighbors_get two_regions ''A'') \<or> map_of [(''A'', CHR ''R'')] B \<noteq> None \<longrightarrow> map_of cd' B = map_of cd B) \<and>
        (True \<longrightarrow> (\<forall>B \<in> set (neighbors_get two_regions ''A''). map_of [(''A'', CHR ''R'')] B = None \<longrightarrow>
              map_of cd' B = Some (filter (constraints two_regions ''A'' CHR ''R'' B) (adjacency cd B)) \<and>
              adjacency cd' B \<noteq> [])) \<and>
        (\<not> True \<longrightarrow> (\<exists>pre B post. neighbors_get two_regions ''A'' = pre @ B # post \<and> map_of [(''A'', CHR ''R'')] B = None \<and>
              map_of cd' B = Some [] \<and> filter (constraints two_regions ''A'' CHR ''R'' B) (adjacency cd B) = [] \<and>
              (\<forall>B' \<in> set pre. map_of [(''A'', CHR ''R'')] B' = None \<longrightarrow>
                 map_of cd' B' = Some (filter (constraints two_regions ''A'' CHR ''R'' B') (adjacency cd B')) \<and>
                 adjacency cd' B' \<noteq> []) \<and>
              (\<forall>B'. B' \<notin> set pre \<and> B' \<noteq> B \<longrightarrow> map_of cd' B' = map_of cd B'))) \<and>
        (\<not> True \<longleftrightarrow> (\<exists>B \<in> set (neighbors_get two_regions ''A''). map_of [(''A'', CHR ''R'')] B = None \<and> map_of cd' B = Some [])))"
proof -
  have ev: "forward_checking two_regions ''A'' CHR ''R'' [(''A'', CHR ''R'')] [] =
     Inr (True, two_regions\<lparr>curr_domains := Some [(''A'', ''RGB''), (''B'', ''GB'')]\<rparr>,
          [(''B'', CHR ''R'')])"
    by (simp add: forward_checking_def support_pruning_def two_regions_def MapColoringCSP_def
        CSP_def neighbors_get_def prune_cd_def different_values_constraint_def)
  from forward_checking_prunes[OF ev] ev show ?thesis by (simp only: append_Nil simp_thms)
qed

subsection \<open>Pruning and restoring working domains\<close>

text \<open>restore appends, per variable, the logged values in log order.\<close>

lemma restore_cd_result:
  assumes "\<forall>p \<in> set removals. map_of cd (fst p) \<noteq> None"
  shows "\<exists>cd'. restore_cd cd removals = Inr cd' \<and> map fst cd' = map fst cd \<and>
           (\<forall>v. map_of cd' v =
                map_option (\<lambda>d. d @ map snd (filter (\<lambda>p. fst p = v) removals)) (map_of cd v))"
  using assms
proof (induction removals arbitrary: cd)
  case Nil
  have "map_option (\<lambda>d. d) (map_of cd v) = map_of cd v" for v
    by (cases "map_of cd v") auto
  then show ?case by simp
next
  case (Cons p rs)
  obtain var val where p: "p = (var, val)" by (cases p)
  with Cons.prems obtain d where d: "map_of cd var = Some d" by auto
  let ?cd1 = "AList.update var (d @ [val]) cd"
  have "\<forall>q \<in> set rs. map_of ?cd1 (fst q) \<noteq> None"
    using Cons.prems by (simp add: update_conv')
  from Cons.IH[OF this] obtain cd' where
    h: "restore_cd ?cd1 rs = Inr cd'" "map fst cd' = map fst ?cd1"
       "\<forall>v. map_of cd' v = map_option (\<lambda>d. d @ map snd (filter (\<lambda>p. fst p = v) rs)) (map_of ?cd1 v)"
    by blast
  have k: "map fst ?cd1 = map fst cd"
    using map_of_Some_key[OF d] by (simp add: update_keys)
  have "map_of cd' v = map_option (\<lambda>d. d @ map snd (filter (\<lambda>p. fst p = v) (p # rs))) (map_of cd v)" for v
    using h(3)[rule_format, of v] d p by (cases "v = var") (simp_all add: update_conv')
  with h(1,2) k d p show ?case by simp
qed

lemma subseq_remove1: "subseq (remove1 x xs) xs"
  by (induction xs) auto

lemma subseq_mset: "subseq xs ys \<Longrightarrow> mset xs \<subseteq># mset ys"
  by (induction rule: list_emb.induct) (auto intro: subset_mset.order_trans)

lemma adjacency_no_key: "v \<notin> set (map fst cd) \<Longrightarrow> adjacency cd v = []"
proof -
  assume "v \<notin> set (map fst cd)"
  then have "map_of cd v = None" by (simp add: map_of_eq_None_iff)
  then show ?thesis by (simp add: adjacency_def)
qed

lemma suppose_working:
  assumes "curr_domains c \<noteq> None" "suppose c var val = Inr (c', supposed)"
  shows "curr_domains c' \<noteq> None \<and> domains c' = domains c \<and> domain_keys c' = domain_keys c \<and>
         var \<in> set (domain_keys c) \<and>
         supposed = map (Pair var) (filter (\<lambda>v. v \<noteq> val) (working c var)) \<and>
         (\<forall>v. working c' v = (if v = var then [val] else working c v))"
proof -
  from assms(1) obtain cd where cd: "curr_domains c = Some cd" by auto
  then have sp: "support_pruning c = Inr c" by (simp add: support_pruning_def)
  from assms(2) sp cd obtain d where d: "map_of cd var = Some d"
    by (auto simp: suppose_def suppose_cd_def split: option.splits)
  from assms(2) sp cd d have c': "c' = c\<lparr>curr_domains := Some (AList.update var [val] cd)\<rparr>"
    and s: "supposed = map (Pair var) (filter (\<lambda>v. v \<noteq> val) d)"
    by (auto simp: suppose_def suppose_cd_def)
  have k: "var \<in> set (map fst cd)" using d by (rule map_of_Some_key)
  have w: "working c var = d" using cd d by (simp add: working_def adjacency_def)
  show ?thesis using c' s k w cd
    by (auto simp: domain_keys_def update_keys working_def adjacency_update)
qed

lemma prune_working:
  assumes "curr_domains c \<noteq> None" "prune c var val removals = Inr (c', removals')"
  shows "curr_domains c' \<noteq> None \<and> domains c' = domains c \<and> domain_keys c' = domain_keys c \<and>
         var \<in> set (domain_keys c) \<and>
         (val \<in> set (working c var) \<longrightarrow> removals' = removals @ [(var, val)] \<and>
            (\<forall>v. working c' v = (if v = var then remove1 val (working c var) else working c v))) \<and>
         (val \<notin> set (working c var) \<longrightarrow> removals' = removals \<and> (\<forall>v. working c' v = working c v))"
proof -
  from assms(1) obtain cd where cd: "curr_domains c = Some cd" by auto
  from assms(2) cd obtain d where d: "map_of cd var = Some d"
    by (auto simp: prune_def prune_cd_def split: option.splits)
  have k: "var \<in> set (map fst cd)" using d by (rule map_of_Some_key)
  have w: "working c var = d" using cd d by (simp add: working_def adjacency_def)
  show ?thesis
  proof (cases "val \<in> set d")
    case True
    with assms(2) cd d have "c' = c\<lparr>curr_domains := Some (AList.update var (remove1 val d) cd)\<rparr>"
      "removals' = removals @ [(var, val)]"
      by (auto simp: prune_def prune_cd_def)
    with True k w cd show ?thesis
      by (auto simp: domain_keys_def update_keys working_def adjacency_update)
  next
    case False
    with assms(2) cd d have "c' = c\<lparr>curr_domains := Some cd\<rparr>" "removals' = removals"
      by (auto simp: prune_def prune_cd_def)
    with False k w cd show ?thesis
      by (auto simp: domain_keys_def working_def)
  qed
qed

lemma prune_log_independent:
  assumes "prune c var val removals = Inr (c', removals')"
  shows "\<exists>r. prune c var val [] = Inr (c', r)"
  using assms by (auto simp: prune_def prune_cd_def split: option.splits if_splits)

lemma restore_working:
  assumes "curr_domains c \<noteq> None" "\<forall>p \<in> set removals. fst p \<in> set (domain_keys c)"
  shows "\<exists>c'. restore c removals = Inr c' \<and> curr_domains c' \<noteq> None \<and> domains c' = domains c \<and>
           domain_keys c' = domain_keys c \<and>
           (\<forall>v. working c' v = working c v @ map snd (filter (\<lambda>p. fst p = v) removals))"
proof -
  from assms(1) obtain cd where cd: "curr_domains c = Some cd" by auto
  have "\<forall>p \<in> set removals. map_of cd (fst p) \<noteq> None"
    using assms(2) cd by (simp add: domain_keys_def map_of_eq_None_iff)
  from restore_cd_result[OF this] obtain cd' where
    h: "restore_cd cd removals = Inr cd'" "map fst cd' = map fst cd"
       "\<forall>v. map_of cd' v =
            map_option (\<lambda>d. d @ map snd (filter (\<lambda>p. fst p = v) removals)) (map_of cd v)"
    by blast
  have "working (c\<lparr>curr_domains := Some cd'\<rparr>) v =
        working c v @ map snd (filter (\<lambda>p. fst p = v) removals)" for v
  proof (cases "map_of cd v")
    case None
    then have "v \<notin> set (domain_keys c)" using cd by (simp add: domain_keys_def map_of_eq_None_iff)
    with assms(2) have "filter (\<lambda>p. fst p = v) removals = []"
      by (auto simp: filter_empty_conv)
    with None h(3) cd show ?thesis by (simp add: working_def adjacency_def)
  next
    case (Some d)
    with h(3) cd show ?thesis by (simp add: working_def adjacency_def)
  qed
  with h(1,2) cd show ?thesis by (simp add: restore_def domain_keys_def)
qed

lemma run_prunings_invariant:
  assumes "curr_domains c \<noteq> None" "run_prunings c ops removals = Inr (c1, removals1)"
    "supposes_present c ops"
  shows "\<exists>added. removals1 = removals @ added \<and> curr_domains c1 \<noteq> None \<and>
           domains c1 = domains c \<and> domain_keys c1 = domain_keys c \<and>
           (\<forall>p \<in> set added. fst p \<in> set (domain_keys c)) \<and>
           (\<forall>v. set (working c1 v) \<union> set (map snd (filter (\<lambda>p. fst p = v) added)) =
                set (working c v)) \<and>
           (\<forall>v. mset (working c1 v) + mset (map snd (filter (\<lambda>p. fst p = v) added)) \<subseteq>#
                mset (working c v))"
  using assms
proof (induction ops arbitrary: c removals)
  case Nil
  then show ?case by simp
next
  case (Cons op ops)
  show ?case
  proof (cases op)
    case (Suppose var val)
    with Cons.prems(2) obtain c' supposed where s: "suppose c var val = Inr (c', supposed)"
      and r: "run_prunings c' ops (removals @ supposed) = Inr (c1, removals1)"
      by (auto split: sum.splits)
    from Cons.prems(3) Suppose s have pres: "val \<in> set (working c var)" and sp: "supposes_present c' ops"
      by auto
    note sw = suppose_working[OF Cons.prems(1) s]
    from sw have ne: "curr_domains c' \<noteq> None" by blast
    from Cons.IH[OF ne r sp] obtain added where
      h: "removals1 = (removals @ supposed) @ added" "curr_domains c1 \<noteq> None"
         "domains c1 = domains c'" "domain_keys c1 = domain_keys c'"
         "\<forall>p \<in> set added. fst p \<in> set (domain_keys c')"
         "\<forall>v. set (working c1 v) \<union> set (map snd (filter (\<lambda>p. fst p = v) added)) = set (working c' v)"
         "\<forall>v. mset (working c1 v) + mset (map snd (filter (\<lambda>p. fst p = v) added)) \<subseteq># mset (working c' v)"
      by blast
    let ?rest = "filter (\<lambda>v. v \<noteq> val) (working c var)"
    have sup: "supposed = map (Pair var) ?rest" using sw by blast
    have w': "working c' v = (if v = var then [val] else working c v)" for v using sw by blast
    have f: "map snd (filter (\<lambda>p. fst p = v) (supposed @ added)) =
             (if v = var then ?rest else []) @ map snd (filter (\<lambda>p. fst p = v) added)" for v
      unfolding sup using snd_filter_pair[of v var ?rest] by simp
    have setv: "set (working c1 v) \<union> set (map snd (filter (\<lambda>p. fst p = v) (supposed @ added))) =
                set (working c v)" for v
    proof (cases "v = var")
      case True
      have "set (working c1 var) \<union> set (map snd (filter (\<lambda>p. fst p = var) added)) = {val}"
        using h(6)[rule_format, of var] w'[of var] by simp
      moreover have "{val} \<union> set ?rest = set (working c var)" using pres by auto
      ultimately show ?thesis unfolding f True by auto
    next
      case False
      then show ?thesis unfolding f using h(6)[rule_format, of v] w'[of v] by simp
    qed
    have msetv: "mset (working c1 v) + mset (map snd (filter (\<lambda>p. fst p = v) (supposed @ added))) \<subseteq>#
                mset (working c v)" for v
    proof (cases "v = var")
      case True
      have a: "mset (working c1 var) + mset (map snd (filter (\<lambda>p. fst p = var) added)) \<subseteq># {#val#}"
        using h(7)[rule_format, of var] w'[of var] by simp
      have "{#val#} + mset ?rest \<subseteq># mset (working c var)"
      proof -
        have "mset (working c var) = mset (filter (\<lambda>v. v = val) (working c var)) + mset ?rest"
          by (induction "working c var") auto
        moreover have "{#val#} \<subseteq># mset (filter (\<lambda>v. v = val) (working c var))"
          using pres by (induction "working c var") auto
        ultimately show ?thesis by (metis subset_mset.add_right_mono)
      qed
      with a have "mset (working c1 var) + mset (map snd (filter (\<lambda>p. fst p = var) added)) + mset ?rest
                   \<subseteq># mset (working c var)"
        by (meson subset_mset.add_right_mono subset_mset.order_trans)
      then show ?thesis unfolding f True by (simp add: ac_simps)
    next
      case False
      then show ?thesis unfolding f using h(7)[rule_format, of v] w'[of v] by simp
    qed
    have keys: "\<forall>p \<in> set (supposed @ added). fst p \<in> set (domain_keys c)"
      using h(5) sw sup by auto
    have "removals1 = removals @ (supposed @ added)" using h(1) by simp
    moreover have "domains c1 = domains c" "domain_keys c1 = domain_keys c" using h(3,4) sw by auto
    ultimately show ?thesis using h(2) keys setv msetv by blast
  next
    case (Prune var val)
    with Cons.prems(2) obtain c' removals' where s: "prune c var val removals = Inr (c', removals')"
      and r: "run_prunings c' ops removals' = Inr (c1, removals1)"
      by (auto split: sum.splits)
    from prune_log_independent[OF s] Cons.prems(3) Prune have sp: "supposes_present c' ops"
      by auto
    note pw = prune_working[OF Cons.prems(1) s]
    from pw have ne: "curr_domains c' \<noteq> None" by blast
    from Cons.IH[OF ne r sp] obtain added where
      h: "removals1 = removals' @ added" "curr_domains c1 \<noteq> None"
         "domains c1 = domains c'" "domain_keys c1 = domain_keys c'"
         "\<forall>p \<in> set added. fst p \<in> set (domain_keys c')"
         "\<forall>v. set (working c1 v) \<union> set (map snd (filter (\<lambda>p. fst p = v) added)) = set (working c' v)"
         "\<forall>v. mset (working c1 v) + mset (map snd (filter (\<lambda>p. fst p = v) added)) \<subseteq># mset (working c' v)"
      by blast
    have same: "domains c1 = domains c" "domain_keys c1 = domain_keys c" using h(3,4) pw by auto
    show ?thesis
    proof (cases "val \<in> set (working c var)")
      case False
      with pw have "removals' = removals" "\<forall>v. working c' v = working c v" by auto
      with h same pw show ?thesis by auto
    next
      case True
      with pw have r': "removals' = removals @ [(var, val)]"
        and w': "\<And>v. working c' v = (if v = var then remove1 val (working c var) else working c v)"
        by auto
      have f: "map snd (filter (\<lambda>p. fst p = v) ((var, val) # added)) =
             (if v = var then [val] else []) @ map snd (filter (\<lambda>p. fst p = v) added)" for v
        by auto
      have setv: "set (working c1 v) \<union> set (map snd (filter (\<lambda>p. fst p = v) ((var, val) # added))) =
                set (working c v)" for v
      proof (cases "v = var")
        case v: True
        have "insert val (set (remove1 val (working c var))) = set (working c var)"
          using True by (metis insert_absorb mset_remove1 set_mset_mset insert_DiffM set_mset_add_mset_insert)
        then show ?thesis unfolding f v using h(6)[rule_format, of var] w'[of var] by auto
      next
        case False
        then show ?thesis unfolding f using h(6)[rule_format, of v] w'[of v] by simp
      qed
      have msetv: "mset (working c1 v) + mset (map snd (filter (\<lambda>p. fst p = v) ((var, val) # added))) \<subseteq>#
                mset (working c v)" for v
      proof (cases "v = var")
        case v: True
        have "mset (working c1 var) + mset (map snd (filter (\<lambda>p. fst p = var) added)) \<subseteq>#
              mset (working c var) - {#val#}"
          using h(7)[rule_format, of var] w'[of var] by simp
        then have "mset (working c1 var) + mset (map snd (filter (\<lambda>p. fst p = var) added)) + {#val#} \<subseteq>#
              mset (working c var)"
          using True by (metis add_mset_add_single insert_DiffM mset_subset_eq_add_mset_cancel set_mset_mset)
        then show ?thesis unfolding f v by (simp add: ac_simps)
      next
        case False
        then show ?thesis unfolding f using h(7)[rule_format, of v] w'[of v] by simp
      qed
      have keys: "\<forall>p \<in> set ((var, val) # added). fst p \<in> set (domain_keys c)"
        using h(5) pw by auto
      have "removals1 = removals @ ((var, val) # added)" using h(1) r' by simp
      with h(2) same keys setv msetv show ?thesis by blast
    qed
  qed
qed

lemma copy_domains_result:
  "copy_domains ds vs acc = Inr cd \<Longrightarrow>
   map_of cd v = (if v \<in> set vs then ds v else map_of acc v) \<and> (v \<in> set vs \<longrightarrow> ds v \<noteq> None)"
proof (induction vs arbitrary: acc)
  case Nil
  then show ?case by simp
next
  case (Cons x vs)
  then obtain d where d: "ds x = Some d" by (auto split: option.splits)
  with Cons.prems have "copy_domains ds vs (AList.update x d acc) = Inr cd" by simp
  from Cons.IH[OF this] d show ?case by (auto simp: update_conv')
qed

lemma support_pruning_ordered:
  assumes "domains_ordered c" "support_pruning c = Inr c1"
  shows "domains_ordered c1"
proof (cases "curr_domains c")
  case (Some cd)
  with assms show ?thesis by (simp add: support_pruning_def)
next
  case None
  with assms(2) obtain cd where cd: "copy_domains (domains c) (variables c) [] = Inr cd"
    and c1: "c1 = c\<lparr>curr_domains := Some cd\<rparr>"
    by (auto simp: support_pruning_def split: sum.splits)
  have "subseq (working c1 v) (original c1 v)" for v
    using copy_domains_result[OF cd, of v] c1
    by (auto simp: working_def original_def adjacency_def split: option.splits)
  then show ?thesis by (simp add: domains_ordered_def)
qed

lemma suppose_after_support:
  "support_pruning c = Inr c1 \<Longrightarrow> suppose c var val = suppose c1 var val"
  by (auto simp: suppose_def support_pruning_def split: option.splits sum.splits)

lemma suppose_ordered:
  assumes "domains_ordered c" "val \<in> set (original c var)" "suppose c var val = Inr (c', supposed)"
  shows "domains_ordered c'"
proof -
  from assms(3) obtain c1 where sp: "support_pruning c = Inr c1"
    by (auto simp: suppose_def split: sum.splits)
  note f = support_pruning_fields[OF sp]
  have o1: "domains_ordered c1" using support_pruning_ordered[OF assms(1) sp] .
  have s1: "suppose c1 var val = Inr (c', supposed)" using suppose_after_support[OF sp] assms(3) by simp
  have ne: "curr_domains c1 \<noteq> None" using f by blast
  note sw = suppose_working[OF ne s1]
  have "subseq (working c' v) (original c' v)" for v
  proof (cases "v = var")
    case True
    have "original c' var = original c var" using sw f by (simp add: original_def)
    with True sw assms(2) show ?thesis by (simp add: subseq_singleton_left)
  next
    case False
    have "original c' v = original c1 v" using sw by (simp add: original_def)
    with False sw o1 show ?thesis by (simp add: domains_ordered_def)
  qed
  then show ?thesis by (simp add: domains_ordered_def)
qed

lemma prune_ordered:
  assumes "domains_ordered c" "prune c var val removals = Inr (c', removals')"
  shows "domains_ordered c'"
proof -
  from assms(2) have ne: "curr_domains c \<noteq> None" by (auto simp: prune_def split: option.splits)
  note pw = prune_working[OF ne assms(2)]
  have o: "original c' v = original c v" for v using pw by (simp add: original_def)
  have "subseq (working c' v) (original c' v)" for v
  proof (cases "val \<in> set (working c var) \<and> v = var")
    case True
    with pw have "working c' v = remove1 val (working c v)" by simp
    moreover have "subseq (remove1 val (working c v)) (working c v)" by (rule subseq_remove1)
    moreover have "subseq (working c v) (original c v)" using assms(1) by (simp add: domains_ordered_def)
    ultimately show ?thesis unfolding o by (metis subseq_order.order_trans)
  next
    case False
    with pw have "working c' v = working c v" by auto
    with assms(1) o show ?thesis by (simp add: domains_ordered_def)
  qed
  then show ?thesis by (simp add: domains_ordered_def)
qed

lemma ordered_within: "domains_ordered c \<Longrightarrow> domains_within c"
  by (simp add: domains_ordered_def domains_within_def subseq_mset)

lemma run_prunings_within:
  assumes "domains_within c" "curr_domains c \<noteq> None" "supposes_present c ops"
    "run_prunings c ops [] = Inr (c1, removals)"
  shows "domains_within c1 \<and> (\<exists>c2. restore c1 removals = Inr c2 \<and> domains_within c2 \<and>
           (\<forall>v. set (working c2 v) = set (working c v)))"
proof -
  from run_prunings_invariant[OF assms(2,4,3)] have
    h: "curr_domains c1 \<noteq> None" "domains c1 = domains c" "domain_keys c1 = domain_keys c"
       "\<forall>p \<in> set removals. fst p \<in> set (domain_keys c)"
       "\<forall>v. set (working c1 v) \<union> set (map snd (filter (\<lambda>p. fst p = v) removals)) = set (working c v)"
       "\<forall>v. mset (working c1 v) + mset (map snd (filter (\<lambda>p. fst p = v) removals)) \<subseteq># mset (working c v)"
    by auto
  have o: "original c1 v = original c v" for v using h(2) by (simp add: original_def)
  have w1: "mset (working c1 v) \<subseteq># mset (original c1 v)" for v
  proof -
    have "mset (working c1 v) \<subseteq># mset (working c1 v) + mset (map snd (filter (\<lambda>p. fst p = v) removals))"
      by simp
    also have "\<dots> \<subseteq># mset (working c v)" using h(6) by blast
    also have "\<dots> \<subseteq># mset (original c v)" using assms(1) by (simp add: domains_within_def)
    finally show ?thesis unfolding o .
  qed
  have "\<forall>p \<in> set removals. fst p \<in> set (domain_keys c1)" using h(3,4) by simp
  from restore_working[OF h(1) this] obtain c2 where
    r: "restore c1 removals = Inr c2" "domains c2 = domains c1"
       "\<forall>v. working c2 v = working c1 v @ map snd (filter (\<lambda>p. fst p = v) removals)"
    by blast
  have o2: "original c2 v = original c v" for v using r(2) h(2) by (simp add: original_def)
  have w2: "mset (working c2 v) \<subseteq># mset (original c2 v)" for v
  proof -
    have "mset (working c2 v) = mset (working c1 v) + mset (map snd (filter (\<lambda>p. fst p = v) removals))"
      using r(3) by simp
    also have "\<dots> \<subseteq># mset (working c v)" using h(6) by blast
    also have "\<dots> \<subseteq># mset (original c v)" using assms(1) by (simp add: domains_within_def)
    finally show ?thesis unfolding o2 .
  qed
  have s2: "set (working c2 v) = set (working c v)" for v
    using r(3) h(5) by simp
  from w1 w2 s2 r(1) show ?thesis by (auto simp: domains_within_def)
qed

text \<open>
  C4, as amended. The working domain of every variable holds values of its original domain
  only, none more often than the original domain does. \<open>support_pruning\<close>, \<open>prune\<close> and
  \<open>suppose\<close> with a value of the original domain keep it a subsequence of the original
  domain (the same relative order); a sequence of \<open>suppose\<close> (each with a value present in
  the working domain) and \<open>prune\<close> calls keeps it within the original domain, and so does
  \<open>restore\<close> of the log of that sequence, which appends the logged values and so does not
  keep the order.
\<close>

theorem working_domain_within_original:
  "(domains_ordered c \<and> support_pruning c = Inr c1 \<longrightarrow> domains_ordered c1) \<and>
   (domains_ordered c \<and> val \<in> set (original c var) \<and> suppose c var val = Inr (c2, supposed) \<longrightarrow>
      domains_ordered c2) \<and>
   (domains_ordered c \<and> prune c var val removals = Inr (c3, removals') \<longrightarrow> domains_ordered c3) \<and>
   (domains_ordered c \<longrightarrow> domains_within c) \<and>
   (domains_within c \<and> curr_domains c \<noteq> None \<and> supposes_present c ops \<and>
      run_prunings c ops [] = Inr (c4, pruned) \<longrightarrow>
      domains_within c4 \<and> (\<exists>c5. restore c4 pruned = Inr c5 \<and> domains_within c5))"
  using support_pruning_ordered[of c c1] suppose_ordered[of c val var c2 supposed]
    prune_ordered[of c var val removals c3 removals'] ordered_within[of c]
    run_prunings_within[of c ops c4 pruned]
  by blast

theorem working_domain_within_original_witness:
  "domains_ordered two_regions \<and> CHR ''G'' \<in> set (original two_regions ''A'') \<and>
   suppose two_regions ''A'' CHR ''G'' =
     Inr (two_regions\<lparr>curr_domains := Some [(''A'', ''G''), (''B'', ''RGB'')]\<rparr>,
          [(''A'', CHR ''R''), (''A'', CHR ''B'')]) \<and>
   domains_ordered (two_regions\<lparr>curr_domains := Some [(''A'', ''G''), (''B'', ''RGB'')]\<rparr>)"
proof -
  have a: "domains_ordered two_regions"
    by (simp add: domains_ordered_def working_def two_regions_def MapColoringCSP_def CSP_def)
  have b: "CHR ''G'' \<in> set (original two_regions ''A'')"
    by (simp add: original_def two_regions_def MapColoringCSP_def CSP_def)
  have c: "suppose two_regions ''A'' CHR ''G'' =
     Inr (two_regions\<lparr>curr_domains := Some [(''A'', ''G''), (''B'', ''RGB'')]\<rparr>,
          [(''A'', CHR ''R''), (''A'', CHR ''B'')])"
    by (simp add: suppose_def suppose_cd_def support_pruning_def two_regions_def
        MapColoringCSP_def CSP_def)
  from working_domain_within_original[where c = two_regions and val = "CHR ''G''" and var = "''A''"
      and ?c2.0 = "two_regions\<lparr>curr_domains := Some [(''A'', ''G''), (''B'', ''RGB'')]\<rparr>"
      and supposed = "[(''A'', CHR ''R''), (''A'', CHR ''B'')]"] a b c
  show ?thesis by blast
qed

text \<open>
  C4 as stated fails: after \<open>suppose(A, G)\<close> and \<open>restore\<close> of its log the working domain
  of \<open>A\<close> is \<open>GRB\<close>, which is not a subsequence of the original domain \<open>RGB\<close>.
\<close>

theorem restore_breaks_order:
  "suppose two_regions ''A'' CHR ''G'' =
     Inr (two_regions\<lparr>curr_domains := Some [(''A'', ''G''), (''B'', ''RGB'')]\<rparr>,
          [(''A'', CHR ''R''), (''A'', CHR ''B'')]) \<and>
   restore (two_regions\<lparr>curr_domains := Some [(''A'', ''G''), (''B'', ''RGB'')]\<rparr>)
       [(''A'', CHR ''R''), (''A'', CHR ''B'')] =
     Inr (two_regions\<lparr>curr_domains := Some [(''A'', ''GRB''), (''B'', ''RGB'')]\<rparr>) \<and>
   working (two_regions\<lparr>curr_domains := Some [(''A'', ''GRB''), (''B'', ''RGB'')]\<rparr>) ''A'' = ''GRB'' \<and>
   original (two_regions\<lparr>curr_domains := Some [(''A'', ''GRB''), (''B'', ''RGB'')]\<rparr>) ''A'' = ''RGB'' \<and>
   \<not> subseq ''GRB'' ''RGB''"
  by (simp add: suppose_def suppose_cd_def support_pruning_def restore_def two_regions_def
      MapColoringCSP_def CSP_def working_def original_def adjacency_def)

text \<open>
  C5, as amended. With initialised working domains, after any sequence of \<open>prune\<close> calls and
  \<open>suppose\<close> calls, each \<open>suppose\<close> with a value that is in the variable's working
  domain when it is called, feeding one fresh removal log, \<open>restore\<close> of that log succeeds
  and leaves every variable a working domain with the same set of values as before the
  sequence.
\<close>

theorem prune_restore_roundtrip:
  assumes "curr_domains c \<noteq> None" "supposes_present c ops" "run_prunings c ops [] = Inr (c1, removals)"
  shows "\<exists>c2. restore c1 removals = Inr c2 \<and> (\<forall>v. set (working c2 v) = set (working c v))"
proof -
  from run_prunings_invariant[OF assms(1,3,2)] have
    h: "curr_domains c1 \<noteq> None" "domain_keys c1 = domain_keys c"
       "\<forall>p \<in> set removals. fst p \<in> set (domain_keys c)"
       "\<forall>v. set (working c1 v) \<union> set (map snd (filter (\<lambda>p. fst p = v) removals)) = set (working c v)"
    by auto
  have "\<forall>p \<in> set removals. fst p \<in> set (domain_keys c1)" using h(2,3) by simp
  from restore_working[OF h(1) this] obtain c2 where
    r: "restore c1 removals = Inr c2"
       "\<forall>v. working c2 v = working c1 v @ map snd (filter (\<lambda>p. fst p = v) removals)"
    by blast
  have "set (working c2 v) = set (working c v)" for v using r(2) h(4) by simp
  with r(1) show ?thesis by blast
qed

theorem prune_restore_roundtrip_witness:
  "curr_domains two_regions_pruned \<noteq> None \<and>
   supposes_present two_regions_pruned [Suppose ''A'' CHR ''G'', Prune ''B'' CHR ''R''] \<and>
   run_prunings two_regions_pruned [Suppose ''A'' CHR ''G'', Prune ''B'' CHR ''R''] [] =
     Inr (two_regions\<lparr>curr_domains := Some [(''A'', ''G''), (''B'', ''GB'')]\<rparr>,
          [(''A'', CHR ''B''), (''B'', CHR ''R'')]) \<and>
   (\<exists>c2. restore (two_regions\<lparr>curr_domains := Some [(''A'', ''G''), (''B'', ''GB'')]\<rparr>)
            [(''A'', CHR ''B''), (''B'', CHR ''R'')] = Inr c2 \<and>
         (\<forall>v. set (working c2 v) = set (working two_regions_pruned v)))"
proof -
  have a: "curr_domains two_regions_pruned \<noteq> None"
    by (simp add: two_regions_pruned_def)
  have b: "supposes_present two_regions_pruned [Suppose ''A'' CHR ''G'', Prune ''B'' CHR ''R'']"
    by (simp add: two_regions_pruned_def working_def adjacency_def suppose_def suppose_cd_def
        support_pruning_def prune_def prune_cd_def two_regions_def MapColoringCSP_def CSP_def)
  have c: "run_prunings two_regions_pruned [Suppose ''A'' CHR ''G'', Prune ''B'' CHR ''R''] [] =
     Inr (two_regions\<lparr>curr_domains := Some [(''A'', ''G''), (''B'', ''GB'')]\<rparr>,
          [(''A'', CHR ''B''), (''B'', CHR ''R'')])"
    by (simp add: two_regions_pruned_def suppose_def suppose_cd_def
        support_pruning_def prune_def prune_cd_def two_regions_def MapColoringCSP_def CSP_def)
  from prune_restore_roundtrip[OF a b c] a b c show ?thesis by blast
qed

text \<open>
  C5 as stated fails: \<open>suppose\<close> does not test that the value is in the working domain.
  With \<open>R\<close> already pruned from \<open>A\<close>, \<open>suppose(A, R)\<close> followed by \<open>restore\<close> of its
  log leaves \<open>A\<close> the working domain \<open>RGB\<close>, not the \<open>GB\<close> it had.
\<close>

lemma rgb_not_gb: "set ''RGB'' \<noteq> set ''GB''"
proof
  assume "set ''RGB'' = set ''GB''"
  moreover have "CHR ''R'' \<in> set ''RGB''" by simp
  ultimately have "CHR ''R'' \<in> set ''GB''" by (simp only:)
  then show False by simp
qed

theorem suppose_absent_value_not_restored:
  "run_prunings two_regions_pruned [Suppose ''A'' CHR ''R''] [] =
     Inr (two_regions\<lparr>curr_domains := Some [(''A'', ''R''), (''B'', ''RGB'')]\<rparr>,
          [(''A'', CHR ''G''), (''A'', CHR ''B'')]) \<and>
   restore (two_regions\<lparr>curr_domains := Some [(''A'', ''R''), (''B'', ''RGB'')]\<rparr>)
       [(''A'', CHR ''G''), (''A'', CHR ''B'')] =
     Inr (two_regions\<lparr>curr_domains := Some [(''A'', ''RGB''), (''B'', ''RGB'')]\<rparr>) \<and>
   working (two_regions\<lparr>curr_domains := Some [(''A'', ''RGB''), (''B'', ''RGB'')]\<rparr>) ''A'' = ''RGB'' \<and>
   working two_regions_pruned ''A'' = ''GB'' \<and>
   set ''RGB'' \<noteq> set ''GB''"
proof -
  have "run_prunings two_regions_pruned [Suppose ''A'' CHR ''R''] [] =
     Inr (two_regions\<lparr>curr_domains := Some [(''A'', ''R''), (''B'', ''RGB'')]\<rparr>,
          [(''A'', CHR ''G''), (''A'', CHR ''B'')])"
    by (simp add: two_regions_pruned_def suppose_def suppose_cd_def support_pruning_def
        two_regions_def MapColoringCSP_def CSP_def)
  moreover have "restore (two_regions\<lparr>curr_domains := Some [(''A'', ''R''), (''B'', ''RGB'')]\<rparr>)
       [(''A'', CHR ''G''), (''A'', CHR ''B'')] =
     Inr (two_regions\<lparr>curr_domains := Some [(''A'', ''RGB''), (''B'', ''RGB'')]\<rparr>)"
    by (simp add: restore_def two_regions_def MapColoringCSP_def CSP_def)
  moreover have "working (two_regions\<lparr>curr_domains := Some [(''A'', ''RGB''), (''B'', ''RGB'')]\<rparr>) ''A'' = ''RGB''"
    by (simp add: working_def adjacency_def)
  moreover have "working two_regions_pruned ''A'' = ''GB''"
    by (simp add: two_regions_pruned_def working_def adjacency_def)
  ultimately show ?thesis using rgb_not_gb by blast
qed

subsection \<open>Reasoning about the search\<close>

text \<open>
  An induction rule and case rules for \<open>backtrack\<close> and its loop, and a rule for
  relations between the state before and after that every step of the search respects.
\<close>

lemma engine_induct [case_names Zero Backtrack Nil Cons]:
  fixes B :: "nat \<Rightarrow> ('v, 'a) params \<Rightarrow> ('v, 'a) search_state \<Rightarrow> ('v, 'a) assignment \<Rightarrow> bool"
    and T :: "nat \<Rightarrow> ('v, 'a) params \<Rightarrow> 'v \<Rightarrow> 'a list \<Rightarrow> ('v, 'a) search_state \<Rightarrow> ('v, 'a) assignment \<Rightarrow> bool"
  assumes zero: "\<And>P st a. B 0 P st a"
    and bt: "\<And>n P st a.
        (\<And>var g vals. length a \<noteq> length (variables (csp_of st)) \<Longrightarrow>
            select_unassigned_variable P a (csp_of st) (rng st) = Inr (var, g) \<Longrightarrow>
            order_domain_values P var a (csp_of st) = Inr vals \<Longrightarrow>
            T n P var vals (st\<lparr>rng := g\<rparr>) a) \<Longrightarrow>
        B (Suc n) P st a"
    and nil: "\<And>n P var st a. T n P var [] st a"
    and cons: "\<And>n P var val rest st a.
        (\<And>st1. try_value P var val st a = Inr (Conflict st1) \<Longrightarrow> T n P var rest st1 a) \<Longrightarrow>
        (\<And>st1 a1 rem. try_value P var val st a = Inr (Descend st1 a1 rem) \<Longrightarrow> B n P st1 a1) \<Longrightarrow>
        (\<And>st1 a1 rem st2 a2 st3 a3.
            try_value P var val st a = Inr (Descend st1 a1 rem) \<Longrightarrow>
            backtrack n P st1 a1 = Some (Inr (None, st2, a2)) \<Longrightarrow>
            undo_value P var val rem st2 a2 = Inr (st3, a3) \<Longrightarrow> T n P var rest st3 a3) \<Longrightarrow>
        (\<And>st1 a1 rem st2 a2.
            try_value P var val st a = Inr (Failed st1 a1 rem) \<Longrightarrow>
            undo_value P var val rem st1 a1 = Inr (st2, a2) \<Longrightarrow> T n P var rest st2 a2) \<Longrightarrow>
        T n P var (val # rest) st a"
  shows "B n P st a" and "T n P var vals st a"
proof (induction n P st a and n P var vals st a rule: backtrack_try_values.induct)
  case (1 P st a)
  show ?case by (rule zero)
next
  case (2 n P st a)
  show ?case by (rule bt) (rule 2, simp_all)
next
  case (3 n P var st a)
  show ?case by (rule nil)
next
  case (4 n P var val rest st a)
  show ?case
  proof (rule cons)
    fix st1 assume "try_value P var val st a = Inr (Conflict st1)"
    then show "T n P var rest st1 a" by (rule 4(1)[OF _ refl])
  next
    fix st1 a1 rem assume "try_value P var val st a = Inr (Descend st1 a1 rem)"
    then show "B n P st1 a1" by (rule 4(2)[OF _ refl])
  next
    fix st1 a1 rem st2 a2 st3 a3
    assume f: "try_value P var val st a = Inr (Descend st1 a1 rem)"
      "backtrack n P st1 a1 = Some (Inr (None, st2, a2))"
      "undo_value P var val rem st2 a2 = Inr (st3, a3)"
    show "T n P var rest st3 a3"
      by (rule 4(3)[OF f(1) refl f(2) refl refl refl refl f(3) refl])
  next
    fix st1 a1 rem st2 a2
    assume f: "try_value P var val st a = Inr (Failed st1 a1 rem)"
      "undo_value P var val rem st1 a1 = Inr (st2, a2)"
    show "T n P var rest st2 a2" by (rule 4(4)[OF f(1) refl f(2) refl])
  qed
qed

lemma backtrack_Suc_cases:
  assumes "backtrack (Suc n) P st a = Some (Inr (r, st', a'))"
  shows "(length a = length (variables (csp_of st)) \<and> log P GOAL a None None st = Inr st' \<and>
            r = Some a \<and> a' = a) \<or>
         (length a \<noteq> length (variables (csp_of st)) \<and>
            (\<exists>var g vals. select_unassigned_variable P a (csp_of st) (rng st) = Inr (var, g) \<and>
               order_domain_values P var a (csp_of st) = Inr vals \<and>
               try_values n P var vals (st\<lparr>rng := g\<rparr>) a = Some (Inr (r, st', a'))))"
proof (cases "length a = length (variables (csp_of st))")
  case True
  with assms show ?thesis by (auto split: sum.splits)
next
  case False
  show ?thesis
  proof (cases "select_unassigned_variable P a (csp_of st) (rng st)")
    case (Inl e)
    with assms False show ?thesis by simp
  next
    case (Inr p)
    obtain var g where p: "p = (var, g)" by (cases p)
    show ?thesis
    proof (cases "order_domain_values P var a (csp_of st)")
      case (Inl e)
      with assms False Inr p show ?thesis by simp
    next
      case ord: (Inr vals)
      with assms False Inr p show ?thesis by simp
    qed
  qed
qed

lemma backtrack_SucE [consumes 1, case_names Goal Select]:
  assumes "backtrack (Suc n) P st a = Some (Inr (r, st', a'))"
    and "length a = length (variables (csp_of st)) \<Longrightarrow> log P GOAL a None None st = Inr st' \<Longrightarrow>
           r = Some a \<Longrightarrow> a' = a \<Longrightarrow> thesis"
    and "\<And>var g vals. length a \<noteq> length (variables (csp_of st)) \<Longrightarrow>
           select_unassigned_variable P a (csp_of st) (rng st) = Inr (var, g) \<Longrightarrow>
           order_domain_values P var a (csp_of st) = Inr vals \<Longrightarrow>
           try_values n P var vals (st\<lparr>rng := g\<rparr>) a = Some (Inr (r, st', a')) \<Longrightarrow> thesis"
  shows thesis
  using backtrack_Suc_cases[OF assms(1)] assms(2,3) by blast

lemma try_values_Cons_cases:
  assumes "try_values n P var (val # rest) st a = Some (Inr (r, st', a'))"
  shows "(\<exists>st1. try_value P var val st a = Inr (Conflict st1) \<and>
            try_values n P var rest st1 a = Some (Inr (r, st', a'))) \<or>
         (\<exists>st1 a1 rem st2 a2. try_value P var val st a = Inr (Failed st1 a1 rem) \<and>
            undo_value P var val rem st1 a1 = Inr (st2, a2) \<and>
            try_values n P var rest st2 a2 = Some (Inr (r, st', a'))) \<or>
         (\<exists>st1 a1 rem x. try_value P var val st a = Inr (Descend st1 a1 rem) \<and>
            backtrack n P st1 a1 = Some (Inr (Some x, st', a')) \<and> r = Some x) \<or>
         (\<exists>st1 a1 rem st2 a2 st3 a3. try_value P var val st a = Inr (Descend st1 a1 rem) \<and>
            backtrack n P st1 a1 = Some (Inr (None, st2, a2)) \<and>
            undo_value P var val rem st2 a2 = Inr (st3, a3) \<and>
            try_values n P var rest st3 a3 = Some (Inr (r, st', a')))"
proof (cases "try_value P var val st a")
  case (Inl e)
  with assms show ?thesis by simp
next
  case (Inr att)
  show ?thesis
  proof (cases att)
    case (Conflict st1)
    with assms Inr show ?thesis by simp
  next
    case (Failed st1 a1 rem)
    show ?thesis
    proof (cases "undo_value P var val rem st1 a1")
      case (Inl e)
      with assms Inr Failed show ?thesis by simp
    next
      case u: (Inr q)
      obtain st2 a2 where q: "q = (st2, a2)" by (cases q)
      with assms Inr Failed u show ?thesis by simp
    qed
  next
    case (Descend st1 a1 rem)
    show ?thesis
    proof (cases "backtrack n P st1 a1")
      case None
      with assms Inr Descend show ?thesis by simp
    next
      case (Some res)
      show ?thesis
      proof (cases res)
        case (Inl e)
        with assms Inr Descend Some show ?thesis by simp
      next
        case ok: (Inr t)
        obtain r2 st2 a2 where t: "t = (r2, st2, a2)" by (cases t)
        show ?thesis
        proof (cases r2)
          case found: (Some x)
          with assms Inr Descend Some ok t show ?thesis by auto
        next
          case None
          show ?thesis
          proof (cases "undo_value P var val rem st2 a2")
            case (Inl e)
            with assms Inr Descend Some ok t None show ?thesis by simp
          next
            case u: (Inr q)
            obtain st3 a3 where q: "q = (st3, a3)" by (cases q)
            with assms Inr Descend Some ok t None u show ?thesis by simp
          qed
        qed
      qed
    qed
  qed
qed

lemma try_values_ConsE [consumes 1, case_names Conflict Failed Found Undone]:
  assumes "try_values n P var (val # rest) st a = Some (Inr (r, st', a'))"
    and "\<And>st1. try_value P var val st a = Inr (Conflict st1) \<Longrightarrow>
           try_values n P var rest st1 a = Some (Inr (r, st', a')) \<Longrightarrow> thesis"
    and "\<And>st1 a1 rem st2 a2. try_value P var val st a = Inr (Failed st1 a1 rem) \<Longrightarrow>
           undo_value P var val rem st1 a1 = Inr (st2, a2) \<Longrightarrow>
           try_values n P var rest st2 a2 = Some (Inr (r, st', a')) \<Longrightarrow> thesis"
    and "\<And>st1 a1 rem x. try_value P var val st a = Inr (Descend st1 a1 rem) \<Longrightarrow>
           backtrack n P st1 a1 = Some (Inr (Some x, st', a')) \<Longrightarrow> r = Some x \<Longrightarrow> thesis"
    and "\<And>st1 a1 rem st2 a2 st3 a3. try_value P var val st a = Inr (Descend st1 a1 rem) \<Longrightarrow>
           backtrack n P st1 a1 = Some (Inr (None, st2, a2)) \<Longrightarrow>
           undo_value P var val rem st2 a2 = Inr (st3, a3) \<Longrightarrow>
           try_values n P var rest st3 a3 = Some (Inr (r, st', a')) \<Longrightarrow> thesis"
  shows thesis
  using try_values_Cons_cases[OF assms(1)] assms(2,3,4,5) by blast

lemma log_result:
  assumes "log P ev a v x st = Inr st1"
  shows "csp_of st1 = csp_of st \<and> rng st1 = rng st \<and>
         (trace st = None \<longrightarrow> st1 = st) \<and>
         (\<forall>tr. trace st = Some tr \<longrightarrow>
            step st1 = step st + 1 \<and>
            trace st1 = Some (tr @ [\<lparr>ev_step = step st + 1, ev_depth = length a, ev_event = ev,
                                      ev_var = v, ev_val = x, ev_assignment = a\<rparr>]) \<and>
            (\<forall>m. max_steps P = Some m \<longrightarrow> int (step st + 1) \<le> m))"
  using assms by (auto simp: log_def Let_def split: option.splits if_splits)

lemma try_value_ConflictD:
  assumes "try_value P var val st a = Inr (Conflict st1)"
  shows "\<exists>st0. log P TRY a (Some var) (Some val) st = Inr st0 \<and>
           nconflicts (csp_of st0) var val a \<noteq> 0 \<and>
           log P CONFLICT a (Some var) (Some val) st0 = Inr st1"
  using assms
  by (auto simp: try_value_def assign_def split: sum.splits if_splits prod.splits)

lemma try_value_DescendD:
  assumes "try_value P var val st a = Inr (Descend st1 a1 rem)"
  shows "\<exists>st0 st2 c2 rem0 c3. log P TRY a (Some var) (Some val) st = Inr st0 \<and>
           nconflicts (csp_of st0) var val a = 0 \<and> a1 = AList.update var val a \<and>
           log P ASSIGN a1 (Some var) (Some val)
             (st0\<lparr>csp_of := (csp_of st0)\<lparr>nassigns := nassigns (csp_of st0) + 1\<rparr>\<rparr>) = Inr st2 \<and>
           suppose (csp_of st2) var val = Inr (c2, rem0) \<and>
           inference P c2 var val a1 rem0 = Inr (True, c3, rem) \<and>
           st1 = st2\<lparr>csp_of := c3\<rparr>"
  using assms
  by (auto simp: try_value_def assign_def split: sum.splits if_splits prod.splits)

lemma try_value_FailedD:
  assumes "try_value P var val st a = Inr (Failed st1 a1 rem)"
  shows "\<exists>st0 st2 c2 rem0 c3. log P TRY a (Some var) (Some val) st = Inr st0 \<and>
           nconflicts (csp_of st0) var val a = 0 \<and> a1 = AList.update var val a \<and>
           log P ASSIGN a1 (Some var) (Some val)
             (st0\<lparr>csp_of := (csp_of st0)\<lparr>nassigns := nassigns (csp_of st0) + 1\<rparr>\<rparr>) = Inr st2 \<and>
           suppose (csp_of st2) var val = Inr (c2, rem0) \<and>
           inference P c2 var val a1 rem0 = Inr (False, c3, rem) \<and>
           log P INFER_FAIL a1 (Some var) (Some val) (st2\<lparr>csp_of := c3\<rparr>) = Inr st1"
  using assms
  by (auto simp: try_value_def assign_def split: sum.splits if_splits prod.splits)

lemma undo_valueD:
  assumes "undo_value P var val rem st a = Inr (st1, a1)"
  shows "\<exists>c1. restore (csp_of st) rem = Inr c1 \<and> a1 = unassign var a \<and>
           log P BACKTRACK a1 (Some var) (Some val) (st\<lparr>csp_of := c1\<rparr>) = Inr st1"
  using assms
  by (auto simp: undo_value_def Let_def split: sum.splits)

lemma engine_relation:
  fixes R :: "('v, 'a) search_state \<times> ('v, 'a) assignment \<Rightarrow>
              ('v, 'a) search_state \<times> ('v, 'a) assignment \<Rightarrow> bool"
  assumes refl: "\<And>s. R s s" and trans: "\<And>s t u. R s t \<Longrightarrow> R t u \<Longrightarrow> R s u"
    and goal: "\<And>st a st1. log P GOAL a None None st = Inr st1 \<Longrightarrow> R (st, a) (st1, a)"
    and sel: "\<And>st a var g. select_unassigned_variable P a (csp_of st) (rng st) = Inr (var, g) \<Longrightarrow>
                R (st, a) (st\<lparr>rng := g\<rparr>, a)"
    and conflict: "\<And>var val st a st1. try_value P var val st a = Inr (Conflict st1) \<Longrightarrow>
                R (st, a) (st1, a)"
    and descend: "\<And>var val st a st1 a1 rem. try_value P var val st a = Inr (Descend st1 a1 rem) \<Longrightarrow>
                R (st, a) (st1, a1)"
    and failed: "\<And>var val st a st1 a1 rem. try_value P var val st a = Inr (Failed st1 a1 rem) \<Longrightarrow>
                R (st, a) (st1, a1)"
    and undo: "\<And>var val rem st a st1 a1. undo_value P var val rem st a = Inr (st1, a1) \<Longrightarrow>
                R (st, a) (st1, a1)"
  shows "backtrack n P st a = Some (Inr (r, st', a')) \<Longrightarrow> R (st, a) (st', a')"
    and "try_values n P var vals st a = Some (Inr (r, st', a')) \<Longrightarrow> R (st, a) (st', a')"
proof -
  have "(\<forall>r st' a'. P' = P \<longrightarrow> backtrack n P' st a = Some (Inr (r, st', a')) \<longrightarrow> R (st, a) (st', a'))"
    and "(\<forall>r st' a'. P' = P \<longrightarrow> try_values n P' var vals st a = Some (Inr (r, st', a')) \<longrightarrow>
            R (st, a) (st', a'))" for P'
  proof (induction n P' st a and n P' var vals st a rule: engine_induct)
    case (Zero P' st a)
    show ?case by simp
  next
    case (Backtrack n P' st a)
    show ?case
    proof (intro allI impI)
      fix r st' a'
      assume eq: "P' = P" and run: "backtrack (Suc n) P' st a = Some (Inr (r, st', a'))"
      from run show "R (st, a) (st', a')"
      proof (cases rule: backtrack_SucE)
        case Goal
        then show ?thesis using goal eq by simp
      next
        case (Select var g vals)
        from Backtrack[OF Select(1,2,3)] eq Select(4) have "R (st\<lparr>rng := g\<rparr>, a) (st', a')" by blast
        moreover have "R (st, a) (st\<lparr>rng := g\<rparr>, a)" using sel Select(2) eq by simp
        ultimately show ?thesis by (rule trans[rotated])
      qed
    qed
  next
    case (Nil n P' var st a)
    show ?case using refl by simp
  next
    case (Cons n P' var val rest st a)
    show ?case
    proof (intro allI impI)
      fix r st' a'
      assume eq: "P' = P" and run: "try_values n P' var (val # rest) st a = Some (Inr (r, st', a'))"
      from run show "R (st, a) (st', a')"
      proof (cases rule: try_values_ConsE)
        case (Conflict st1)
        from Cons(1)[OF Conflict(1)] eq Conflict(2) have "R (st1, a) (st', a')" by blast
        moreover have "R (st, a) (st1, a)" using conflict Conflict(1) eq by simp
        ultimately show ?thesis by (rule trans[rotated])
      next
        case (Failed st1 a1 rem st2 a2)
        from Cons(4)[OF Failed(1,2)] eq Failed(3) have "R (st2, a2) (st', a')" by blast
        moreover have "R (st, a) (st1, a1)" using failed Failed(1) eq by simp
        moreover have "R (st1, a1) (st2, a2)" using undo Failed(2) eq by simp
        ultimately show ?thesis by (meson trans)
      next
        case (Found st1 a1 rem x)
        from Cons(2)[OF Found(1)] eq Found(2) have "R (st1, a1) (st', a')" by blast
        moreover have "R (st, a) (st1, a1)" using descend Found(1) eq by simp
        ultimately show ?thesis by (rule trans[rotated])
      next
        case (Undone st1 a1 rem st2 a2 st3 a3)
        from Cons(2)[OF Undone(1)] eq Undone(2) have "R (st1, a1) (st2, a2)" by blast
        moreover from Cons(3)[OF Undone(1,2,3)] eq Undone(4) have "R (st3, a3) (st', a')" by blast
        moreover have "R (st, a) (st1, a1)" using descend Undone(1) eq by simp
        moreover have "R (st2, a2) (st3, a3)" using undo Undone(3) eq by simp
        ultimately show ?thesis by (meson trans)
      qed
    qed
  qed
  then show "backtrack n P st a = Some (Inr (r, st', a')) \<Longrightarrow> R (st, a) (st', a')"
    and "try_values n P var vals st a = Some (Inr (r, st', a')) \<Longrightarrow> R (st, a) (st', a')"
    by blast+
qed

lemma engine_result:
  "backtrack n P st a = Some (Inr (Some x, st', a')) \<Longrightarrow>
     x = a' \<and> length x = length (variables (csp_of st'))"
  "try_values n P var vals st a = Some (Inr (Some x, st', a')) \<Longrightarrow>
     x = a' \<and> length x = length (variables (csp_of st'))"
proof -
  have "(\<forall>x st' a'. backtrack n P st a = Some (Inr (Some x, st', a')) \<longrightarrow>
            x = a' \<and> length x = length (variables (csp_of st')))"
    and "(\<forall>x st' a'. try_values n P var vals st a = Some (Inr (Some x, st', a')) \<longrightarrow>
            x = a' \<and> length x = length (variables (csp_of st')))"
  proof (induction n P st a and n P var vals st a rule: engine_induct)
    case (Zero P st a)
    show ?case by simp
  next
    case (Backtrack n P st a)
    show ?case
    proof (intro allI impI)
      fix x st' a'
      assume run: "backtrack (Suc n) P st a = Some (Inr (Some x, st', a'))"
      from run show "x = a' \<and> length x = length (variables (csp_of st'))"
      proof (cases rule: backtrack_SucE)
        case Goal
        then show ?thesis using log_result[OF Goal(2)] by simp
      next
        case (Select var g vals)
        from Backtrack[OF Select(1,2,3)] Select(4) show ?thesis by blast
      qed
    qed
  next
    case (Nil n P var st a)
    show ?case by simp
  next
    case (Cons n P var val rest st a)
    show ?case
    proof (intro allI impI)
      fix x st' a'
      assume run: "try_values n P var (val # rest) st a = Some (Inr (Some x, st', a'))"
      from run show "x = a' \<and> length x = length (variables (csp_of st'))"
      proof (cases rule: try_values_ConsE)
        case (Conflict st1)
        from Cons(1)[OF Conflict(1)] Conflict(2) show ?thesis by blast
      next
        case (Failed st1 a1 rem st2 a2)
        from Cons(4)[OF Failed(1,2)] Failed(3) show ?thesis by blast
      next
        case (Found st1 a1 rem y)
        from Cons(2)[OF Found(1)] Found(2,3) show ?thesis by blast
      next
        case (Undone st1 a1 rem st2 a2 st3 a3)
        from Cons(3)[OF Undone(1,2,3)] Undone(4) show ?thesis by blast
      qed
    qed
  qed
  then show "backtrack n P st a = Some (Inr (Some x, st', a')) \<Longrightarrow>
     x = a' \<and> length x = length (variables (csp_of st'))"
    and "try_values n P var vals st a = Some (Inr (Some x, st', a')) \<Longrightarrow>
     x = a' \<and> length x = length (variables (csp_of st'))"
    by blast+
qed

subsection \<open>The validated result of the search\<close>

lemma unassign_distinct: "distinct (map fst a) \<Longrightarrow> distinct (map fst (unassign var a))"
  by (simp add: unassign_def distinct_delete)

lemma engine_distinct:
  assumes "distinct (map fst a)"
  shows "backtrack n P st a = Some (Inr (r, st', a')) \<Longrightarrow> distinct (map fst a')"
    and "try_values n P var vals st a = Some (Inr (r, st', a')) \<Longrightarrow> distinct (map fst a')"
proof -
  let ?R = "\<lambda>(s :: ('a, 'b) search_state \<times> ('a, 'b) assignment) (t :: ('a, 'b) search_state \<times> ('a, 'b) assignment).
              distinct (map fst (snd s)) \<longrightarrow> distinct (map fst (snd t))"
  have r: "?R s s" for s by simp
  have t: "?R s t \<Longrightarrow> ?R t u \<Longrightarrow> ?R s u" for s t u by simp
  have d: "?R (st, a) (st1, a1)" if "try_value P var val st a = Inr (Descend st1 a1 rem)"
    for var val st a st1 a1 rem
    using try_value_DescendD[OF that] by (auto simp: distinct_update)
  have f: "?R (st, a) (st1, a1)" if "try_value P var val st a = Inr (Failed st1 a1 rem)"
    for var val st a st1 a1 rem
    using try_value_FailedD[OF that] by (auto simp: distinct_update)
  have u: "?R (st, a) (st1, a1)" if "undo_value P var val rem st a = Inr (st1, a1)"
    for var val rem st a st1 a1
    using undo_valueD[OF that] by (auto simp: unassign_distinct)
  have same: "?R (st, a) (st1, a)" for st st1 :: "('a, 'b) search_state" and a by simp
  show "distinct (map fst a')" if run: "backtrack n P st a = Some (Inr (r, st', a'))"
    using engine_relation(1)[where R = ?R and P = P, OF r t same same same d f u run] assms
    by simp
  show "distinct (map fst a')" if run: "try_values n P var vals st a = Some (Inr (r, st', a'))"
    using engine_relation(2)[where R = ?R and P = P, OF r t same same same d f u run] assms
    by simp
qed

lemma all_no_conflicts_True:
  "all_no_conflicts c a vs = Inr True \<Longrightarrow>
   \<forall>v \<in> set vs. \<exists>x. map_of a v = Some x \<and> nconflicts c v x a = 0"
  by (induction vs) (auto split: option.splits if_splits)

lemma nconflicts_zero:
  "nconflicts c v x a = 0 \<longleftrightarrow>
   (\<forall>n \<in> set (neighbors_get c v). \<forall>y. map_of a n = Some y \<longrightarrow> constraints c v x n y)"
  by (auto simp: nconflicts_def conflicts_with_def filter_empty_conv split: option.splits)

lemma is_goal_True:
  assumes "is_goal c a = Inr True"
  shows "length a = length (variables c) \<and>
         (\<forall>v \<in> set (variables c). \<exists>x. map_of a v = Some x \<and>
            (\<forall>n \<in> set (neighbors_get c v). \<forall>y. map_of a n = Some y \<longrightarrow> constraints c v x n y))"
proof -
  from assms have l: "length a = length (variables c)" and al: "all_no_conflicts c a (variables c) = Inr True"
    by (auto simp: is_goal_def split: if_splits)
  from all_no_conflicts_True[OF al] l show ?thesis by (simp add: nconflicts_zero)
qed

lemma same_problem_refl: "same_problem c c"
  by (simp add: same_problem_def)

lemma same_problem_trans: "same_problem c c1 \<Longrightarrow> same_problem c1 c2 \<Longrightarrow> same_problem c c2"
  by (simp add: same_problem_def)

lemma support_pruning_same: "support_pruning c = Inr c1 \<Longrightarrow> same_problem c c1"
  using support_pruning_fields[of c c1] by (simp add: same_problem_def)

lemma suppose_same: "suppose c var val = Inr (c', removals) \<Longrightarrow> same_problem c c'"
  by (auto simp: suppose_def same_problem_def split: sum.splits option.splits
      dest!: support_pruning_fields)

lemma restore_same: "restore c removals = Inr c' \<Longrightarrow> same_problem c c'"
  by (auto simp: restore_def same_problem_def split: sum.splits option.splits)

lemma keeps_problem_forward_checking: "keeps_problem forward_checking"
  unfolding keeps_problem_def
proof (intro allI impI)
  fix c :: "('a, 'b) csp" and var val a removals ok c' removals'
  assume "forward_checking c var val a removals = Inr (ok, c', removals')"
  from forward_checking_unfold[OF this] obtain c1 cd cd' where
    "support_pruning c = Inr c1" "c' = c1\<lparr>curr_domains := Some cd'\<rparr>" by blast
  then show "same_problem c c'"
    using support_pruning_fields[of c c1] by (simp add: same_problem_def)
qed

lemma keeps_problem_no_inference: "keeps_problem no_inference"
  by (simp add: keeps_problem_def no_inference_def same_problem_def)

lemma engine_same_problem:
  assumes k: "keeps_problem (inference P)"
  shows "backtrack n P st a = Some (Inr (r, st', a')) \<Longrightarrow> same_problem (csp_of st) (csp_of st')"
    and "try_values n P var vals st a = Some (Inr (r, st', a')) \<Longrightarrow>
           same_problem (csp_of st) (csp_of st')"
proof -
  let ?R = "\<lambda>(s :: ('a, 'b) search_state \<times> ('a, 'b) assignment) (t :: ('a, 'b) search_state \<times> ('a, 'b) assignment).
              same_problem (csp_of (fst s)) (csp_of (fst t))"
  have r: "?R s s" for s by (simp add: same_problem_refl)
  have t: "?R s t \<Longrightarrow> ?R t u \<Longrightarrow> ?R s u" for s t u by (rule same_problem_trans)
  have g: "?R (st, a) (st1, a)" if "log P GOAL a None None st = Inr st1" for st a st1
    using log_result[OF that] by (simp add: same_problem_refl)
  have s: "?R (st, a) (st\<lparr>rng := g\<rparr>, a)" for st :: "('a, 'b) search_state" and a g
    by (simp add: same_problem_refl)
  have c: "?R (st, a) (st1, a)" if "try_value P var val st a = Inr (Conflict st1)"
    for var val st a st1
    using try_value_ConflictD[OF that] by (auto dest!: log_result simp: same_problem_refl)
  have commit: "same_problem (csp_of st) c3"
    if "log P TRY a (Some var) (Some val) st = Inr st0"
      "log P ASSIGN a1 (Some var) (Some val)
             (st0\<lparr>csp_of := (csp_of st0)\<lparr>nassigns := nassigns (csp_of st0) + 1\<rparr>\<rparr>) = Inr st2"
      "suppose (csp_of st2) var val = Inr (c2, rem0)"
      "inference P c2 var val a1 rem0 = Inr (ok, c3, rem)"
    for st a var val st0 a1 st2 c2 rem0 ok c3 rem
  proof -
    have "csp_of st0 = csp_of st" using log_result[OF that(1)] by simp
    moreover have "csp_of st2 = (csp_of st0)\<lparr>nassigns := nassigns (csp_of st0) + 1\<rparr>"
      using log_result[OF that(2)] by simp
    moreover have "same_problem (csp_of st2) c2" using suppose_same[OF that(3)] .
    moreover have "same_problem c2 c3" using k that(4) unfolding keeps_problem_def by blast
    ultimately show ?thesis by (simp add: same_problem_def)
  qed
  have d: "?R (st, a) (st1, a1)" if "try_value P var val st a = Inr (Descend st1 a1 rem)"
    for var val st a st1 a1 rem
    using try_value_DescendD[OF that] commit by fastforce
  have f: "?R (st, a) (st1, a1)" if "try_value P var val st a = Inr (Failed st1 a1 rem)"
    for var val st a st1 a1 rem
  proof -
    from try_value_FailedD[OF that] obtain st0 st2 c2 rem0 c3 where
      h: "log P TRY a (Some var) (Some val) st = Inr st0"
         "log P ASSIGN a1 (Some var) (Some val)
             (st0\<lparr>csp_of := (csp_of st0)\<lparr>nassigns := nassigns (csp_of st0) + 1\<rparr>\<rparr>) = Inr st2"
         "suppose (csp_of st2) var val = Inr (c2, rem0)"
         "inference P c2 var val a1 rem0 = Inr (False, c3, rem)"
         "log P INFER_FAIL a1 (Some var) (Some val) (st2\<lparr>csp_of := c3\<rparr>) = Inr st1"
      by blast
    have "csp_of st1 = c3" using log_result[OF h(5)] by simp
    with commit[OF h(1,2,3,4)] show ?thesis by simp
  qed
  have u: "?R (st, a) (st1, a1)" if "undo_value P var val rem st a = Inr (st1, a1)"
    for var val rem st a st1 a1
  proof -
    from undo_valueD[OF that] obtain c1 where
      h: "restore (csp_of st) rem = Inr c1"
         "log P BACKTRACK a1 (Some var) (Some val) (st\<lparr>csp_of := c1\<rparr>) = Inr st1" by blast
    have "csp_of st1 = c1" using log_result[OF h(2)] by simp
    with restore_same[OF h(1)] show ?thesis by simp
  qed
  show "same_problem (csp_of st) (csp_of st')" if run: "backtrack n P st a = Some (Inr (r, st', a'))"
    using engine_relation(1)[where R = ?R and P = P, OF r t g s c d f u run] by simp
  show "same_problem (csp_of st) (csp_of st')"
    if run: "try_values n P var vals st a = Some (Inr (r, st', a'))"
    using engine_relation(2)[where R = ?R and P = P, OF r t g s c d f u run] by simp
qed

text \<open>
  C1. Whatever the selector, the value ordering and the inference: a result other than
  \<open>None\<close> that \<open>backtracking_search\<close> returns is a dict (distinct keys) with as many
  entries as the CSP has variables, it gives every variable of the CSP a value, and for
  every variable and every neighbour of it that has a value the constraint holds between
  the two values; the CSP is the one passed in when the inference leaves the problem
  unchanged, as \<open>forward_checking\<close> and \<open>no_inference\<close> do. A candidate of
  \<open>backtrack\<close> for which \<open>is_goal\<close> is false makes \<open>backtracking_search\<close> raise
  AssertionError.
\<close>

theorem backtracking_search_validated:
  "(backtracking_search fuel c sel ordr infr tr ms g = Some (Inr (Some r, st)) \<longrightarrow>
      distinct (map fst r) \<and> length r = length (variables (csp_of st)) \<and>
      (\<forall>v \<in> set (variables (csp_of st)). \<exists>x. map_of r v = Some x \<and>
         (\<forall>n \<in> set (neighbors_get (csp_of st) v). \<forall>y. map_of r n = Some y \<longrightarrow>
            constraints (csp_of st) v x n y)) \<and>
      (keeps_problem infr \<longrightarrow> same_problem c (csp_of st))) \<and>
   (backtrack fuel
       \<lparr>select_unassigned_variable = sel, order_domain_values = ordr, inference = infr,
        max_steps = ms\<rparr>
       \<lparr>csp_of = c, trace = tr, step = 0, rng = g\<rparr> [] = Some (Inr (Some r', st', a')) \<and>
    is_goal (csp_of st') r' = Inr False \<longrightarrow>
      backtracking_search fuel c sel ordr infr tr ms g = Some (Inl AssertionError))"
proof (intro conjI impI)
  let ?P = "\<lparr>select_unassigned_variable = sel, order_domain_values = ordr, inference = infr,
        max_steps = ms\<rparr>"
  let ?st = "\<lparr>csp_of = c, trace = tr, step = 0, rng = g\<rparr>"
  assume res: "backtracking_search fuel c sel ordr infr tr ms g = Some (Inr (Some r, st))"
  then obtain a where run: "backtrack fuel ?P ?st [] = Some (Inr (Some r, st, a))"
    and goal: "is_goal (csp_of st) r = Inr True"
    by (auto simp: backtracking_search_def split: option.splits sum.splits if_splits)
  from engine_result(1)[OF run] have ra: "r = a" by simp
  from engine_distinct(1)[OF _ run] ra show "distinct (map fst r)" by simp
  from is_goal_True[OF goal] show "length r = length (variables (csp_of st))" by simp
  from is_goal_True[OF goal] show "\<forall>v \<in> set (variables (csp_of st)). \<exists>x. map_of r v = Some x \<and>
         (\<forall>n \<in> set (neighbors_get (csp_of st) v). \<forall>y. map_of r n = Some y \<longrightarrow>
            constraints (csp_of st) v x n y)" by simp
  assume "keeps_problem infr"
  then have "keeps_problem (inference ?P)" by simp
  from engine_same_problem(1)[OF this run] show "same_problem c (csp_of st)" by simp
next
  assume "backtrack fuel
       \<lparr>select_unassigned_variable = sel, order_domain_values = ordr, inference = infr,
        max_steps = ms\<rparr>
       \<lparr>csp_of = c, trace = tr, step = 0, rng = g\<rparr> [] = Some (Inr (Some r', st', a')) \<and>
    is_goal (csp_of st') r' = Inr False"
  then show "backtracking_search fuel c sel ordr infr tr ms g = Some (Inl AssertionError)"
    by (simp add: backtracking_search_def)
qed

lemmas engine_defs = backtracking_search_def try_value_def undo_value_def log_def is_goal_def
  mrv_def argmin_random_tie_def random_choice_def num_legal_values_def count_true_def
  unassigned_def first_unassigned_variable_def first_def lcv_def choices_def
  forward_checking_def support_pruning_def suppose_def suppose_cd_def prune_cd_def
  restore_def assign_def unassign_def nconflicts_def conflicts_with_def neighbors_get_def
  MapColoringCSP_def CSP_def different_values_constraint_def

lemma two_regions_run:
  "backtracking_search 3 two_regions mrv lcv forward_checking None None (\<lambda>_. 0) =
   Some (Inr (Some [(''A'', CHR ''R''), (''B'', CHR ''G'')],
     \<lparr>csp_of = two_regions\<lparr>curr_domains := Some [(''A'', ''R''), (''B'', ''G'')], nassigns := 2\<rparr>,
      trace = None, step = 0, rng = (\<lambda>_. 0)\<rparr>))"
  by (simp add: engine_defs two_regions_def numeral_3_eq_3)

lemma self_loop_run:
  "backtracking_search 2 self_loop mrv lcv forward_checking None None (\<lambda>_. 0) =
   Some (Inl AssertionError)"
  by (simp add: engine_defs self_loop_def numeral_2_eq_2)

theorem backtracking_search_validated_witness:
  "backtracking_search 3 two_regions mrv lcv forward_checking None None (\<lambda>_. 0) =
     Some (Inr (Some [(''A'', CHR ''R''), (''B'', CHR ''G'')],
       \<lparr>csp_of = two_regions\<lparr>curr_domains := Some [(''A'', ''R''), (''B'', ''G'')], nassigns := 2\<rparr>,
        trace = None, step = 0, rng = (\<lambda>_. 0)\<rparr>)) \<and>
   keeps_problem (forward_checking :: (string, char) inference_fn) \<and>
   same_problem two_regions
     (two_regions\<lparr>curr_domains := Some [(''A'', ''R''), (''B'', ''G'')], nassigns := 2\<rparr>) \<and>
   backtrack 2
       \<lparr>select_unassigned_variable = mrv, order_domain_values = lcv, inference = forward_checking,
        max_steps = None\<rparr>
       \<lparr>csp_of = self_loop, trace = None, step = 0, rng = (\<lambda>_. 0)\<rparr> [] =
     Some (Inr (Some [(''A'', CHR ''R'')],
       \<lparr>csp_of = self_loop\<lparr>curr_domains := Some [(''A'', ''R'')], nassigns := 1\<rparr>,
        trace = None, step = 0, rng = (\<lambda>_. 0)\<rparr>, [(''A'', CHR ''R'')])) \<and>
   is_goal (self_loop\<lparr>curr_domains := Some [(''A'', ''R'')], nassigns := 1\<rparr>) [(''A'', CHR ''R'')] =
     Inr False \<and>
   backtracking_search 2 self_loop mrv lcv forward_checking None None (\<lambda>_. 0) =
     Some (Inl AssertionError)"
proof -
  let ?st = "\<lparr>csp_of = two_regions\<lparr>curr_domains := Some [(''A'', ''R''), (''B'', ''G'')], nassigns := 2\<rparr>,
        trace = None, step = 0, rng = (\<lambda>_. 0)\<rparr> :: (string, char) search_state"
  let ?st' = "\<lparr>csp_of = self_loop\<lparr>curr_domains := Some [(''A'', ''R'')], nassigns := 1\<rparr>,
        trace = None, step = 0, rng = (\<lambda>_. 0)\<rparr> :: (string, char) search_state"
  have k: "keeps_problem (forward_checking :: (string, char) inference_fn)"
    by (rule keeps_problem_forward_checking)
  have bt: "backtrack 2
       \<lparr>select_unassigned_variable = mrv, order_domain_values = lcv, inference = forward_checking,
        max_steps = None\<rparr>
       \<lparr>csp_of = self_loop, trace = None, step = 0, rng = (\<lambda>_. 0)\<rparr> [] =
     Some (Inr (Some [(''A'', CHR ''R'')], ?st', [(''A'', CHR ''R'')]))"
    by (simp add: engine_defs self_loop_def numeral_2_eq_2)
  have ig: "is_goal (csp_of ?st') [(''A'', CHR ''R'')] = Inr False"
    by (simp add: engine_defs self_loop_def)
  note t1 = backtracking_search_validated[where fuel = 3 and c = two_regions and sel = mrv
      and ordr = lcv and infr = forward_checking and tr = None and ms = None and g = "\<lambda>_. 0"
      and r = "[(''A'', CHR ''R''), (''B'', CHR ''G'')]" and st = ?st]
  note t2 = backtracking_search_validated[where fuel = 2 and c = self_loop and sel = mrv
      and ordr = lcv and infr = forward_checking and tr = None and ms = None and g = "\<lambda>_. 0"
      and r' = "[(''A'', CHR ''R'')]" and st' = ?st' and a' = "[(''A'', CHR ''R'')]"]
  from t1 two_regions_run k have "same_problem two_regions (csp_of ?st)" by blast
  moreover from t2 bt ig have "backtracking_search 2 self_loop mrv lcv forward_checking None None (\<lambda>_. 0) =
     Some (Inl AssertionError)" by blast
  ultimately show ?thesis using two_regions_run k bt ig by simp
qed

subsection \<open>The graph that is parsed\<close>

lemma add_edges_adjacency:
  "set (adjacency (add_edges X Bs g) A) =
   set (adjacency g A) \<union> {B. (A = X \<and> B \<in> set Bs) \<or> (B = X \<and> A \<in> set Bs)}"
proof (induction Bs arbitrary: g)
  case Nil
  show ?case by simp
next
  case (Cons Y Bs)
  have "set (adjacency (graph_append Y X (graph_append X Y g)) A) =
        set (adjacency g A) \<union> {B. (A = X \<and> B = Y) \<or> (B = X \<and> A = Y)}"
    by (auto simp: adjacency_graph_append)
  then show ?case unfolding add_edges.simps Cons.IH by auto
qed

lemma parse_specs_adjacency:
  "set (adjacency (parse_specs specs g) A) =
   set (adjacency g A) \<union>
   {B. (A, B) \<in> set (concat (map entry_edges specs)) \<or>
       (B, A) \<in> set (concat (map entry_edges specs))}"
proof (induction specs arbitrary: g)
  case Nil
  show ?case by simp
next
  case (Cons spec specs)
  show ?case
  proof (cases "CHR '':'' \<in> set spec")
    case False
    then show ?thesis using Cons.IH[of g] by (simp add: entry_edges_def)
  next
    case True
    let ?X = "strip (takeWhile (\<lambda>ch. ch \<noteq> CHR '':'') spec)"
    let ?Bs = "split_ws (tl (dropWhile (\<lambda>ch. ch \<noteq> CHR '':'') spec))"
    have e: "set (entry_edges spec) = {(X, B). X = ?X \<and> B \<in> set ?Bs}"
      using True by (auto simp: entry_edges_def)
    have "set (adjacency (parse_specs (spec # specs) g) A) =
          set (adjacency (add_edges ?X ?Bs g) A) \<union>
          {B. (A, B) \<in> set (concat (map entry_edges specs)) \<or>
              (B, A) \<in> set (concat (map entry_edges specs))}"
      using True Cons.IH[of "add_edges ?X ?Bs g"] by simp
    then show ?thesis unfolding add_edges_adjacency using e by auto
  qed
qed

lemma parse_neighbors_edges:
  "B \<in> set (adjacency (parse_neighbors src) A) \<longleftrightarrow>
   (A, B) \<in> set (declared_edges src) \<or> (B, A) \<in> set (declared_edges src)"
proof -
  have "adjacency ([] :: (string \<times> string list) list) A = []" by (simp add: adjacency_def)
  then show ?thesis
    unfolding adjacency_parse_neighbors declared_edges_def
    using parse_specs_adjacency[of "filter (\<lambda>spec. spec \<noteq> []) (map strip (split_on CHR '';'' src))" "[]" A]
    by simp
qed

lemma graph_append_nonempty:
  "\<forall>p \<in> set g. snd p \<noteq> [] \<Longrightarrow> \<forall>p \<in> set (graph_append k x g). snd p \<noteq> []"
proof -
  have "\<forall>p \<in> set g. snd p \<noteq> [] \<Longrightarrow> v \<noteq> [] \<Longrightarrow> \<forall>p \<in> set (AList.update k v g). snd p \<noteq> []"
    for v :: "string list" and g :: "(string \<times> string list) list"
    by (induction g) auto
  then show "\<forall>p \<in> set g. snd p \<noteq> [] \<Longrightarrow> \<forall>p \<in> set (graph_append k x g). snd p \<noteq> []"
    unfolding graph_append_def by blast
qed

lemma add_edges_nonempty:
  "\<forall>p \<in> set g. snd p \<noteq> [] \<Longrightarrow> \<forall>p \<in> set (add_edges X Bs g). snd p \<noteq> []"
proof (induction Bs arbitrary: g)
  case Nil
  then show ?case by simp
next
  case (Cons Y Bs)
  have "\<forall>p \<in> set (graph_append Y X (graph_append X Y g)). snd p \<noteq> []"
    by (intro graph_append_nonempty Cons.prems)
  from Cons.IH[OF this] show ?case by simp
qed

lemma parse_specs_nonempty:
  "\<forall>p \<in> set g. snd p \<noteq> [] \<Longrightarrow> \<forall>p \<in> set (parse_specs specs g). snd p \<noteq> []"
proof (induction specs arbitrary: g)
  case Nil
  then show ?case by simp
next
  case (Cons spec specs)
  show ?case
  proof (cases "CHR '':'' \<in> set spec")
    case False
    with Cons.IH[OF Cons.prems] show ?thesis by simp
  next
    case True
    with Cons.IH[OF add_edges_nonempty[OF Cons.prems]] show ?thesis by simp
  qed
qed

lemma parse_neighbors_nonempty: "(k, l) \<in> set (parse_neighbors src) \<Longrightarrow> l \<noteq> []"
proof -
  assume "(k, l) \<in> set (parse_neighbors src)"
  then obtain l0 where "(k, l0) \<in> set (parse_specs (filter (\<lambda>spec. spec \<noteq> []) (map strip (split_on CHR '';'' src))) [])"
    and l: "l = sort (remdups l0)"
    by (auto simp: parse_neighbors_def)
  with parse_specs_nonempty[of "[]" "filter (\<lambda>spec. spec \<noteq> []) (map strip (split_on CHR '';'' src))"]
  have "l0 \<noteq> []" by fastforce
  then have "set l0 \<noteq> {}" by simp
  then have "set l \<noteq> {}" unfolding l by simp
  then show "l \<noteq> []" by auto
qed

lemma colon_not_space: "\<not> is_space CHR '':''"
  by (simp add: is_space_def)

lemma dropWhile_keeps: "\<not> Q x \<Longrightarrow> x \<in> set (dropWhile Q xs) \<longleftrightarrow> x \<in> set xs"
  by (induction xs) auto

lemma colon_strip: "CHR '':'' \<in> set (strip s) \<longleftrightarrow> CHR '':'' \<in> set s"
proof -
  note k = dropWhile_keeps[where Q = is_space and x = "CHR '':''", OF colon_not_space]
  show ?thesis unfolding strip_def by (simp add: k)
qed

lemma parse_specs_filter:
  "parse_specs (filter (\<lambda>s. CHR '':'' \<in> set s) specs) g = parse_specs specs g"
  by (induction specs arbitrary: g) auto

lemma split_on_join:
  "\<forall>e \<in> set es. CHR '';'' \<notin> set e \<Longrightarrow> es \<noteq> [] \<Longrightarrow> split_on CHR '';'' (join_entries es) = es"
proof (induction es rule: join_entries.induct)
  case 1
  then show ?case by simp
next
  case (2 e)
  then show ?case by (simp add: split_on_no_sep)
next
  case (3 e e' es)
  then have "split_on CHR '';'' (join_entries (e' # es)) = e' # es" by simp
  moreover have "split_on CHR '';'' e = [e]" using 3(2) by (simp add: split_on_no_sep)
  ultimately show ?case by (simp add: split_on_append)
qed

lemma specs_of_join:
  assumes "\<forall>e \<in> set es. CHR '';'' \<notin> set e"
  shows "filter (\<lambda>spec. spec \<noteq> []) (map strip (split_on CHR '';'' (join_entries es))) =
         filter (\<lambda>spec. spec \<noteq> []) (map strip es)"
proof (cases "es = []")
  case True
  then show ?thesis by (simp add: strip_def)
next
  case False
  with split_on_join[OF assms] show ?thesis by simp
qed

lemma parse_neighbors_skip_all:
  assumes "\<forall>e \<in> set es. CHR '';'' \<notin> set e"
  shows "parse_neighbors (join_entries es) =
         parse_neighbors (join_entries (filter (\<lambda>e. CHR '':'' \<in> set e) es))"
proof -
  let ?ne = "\<lambda>spec :: string. spec \<noteq> []"
  let ?hc = "\<lambda>s :: string. CHR '':'' \<in> set s"
  have a2: "\<forall>e \<in> set (filter ?hc es). CHR '';'' \<notin> set e" using assms by simp
  have "filter ?hc (filter ?ne (map strip es)) = filter ?hc (filter ?ne (map strip (filter ?hc es)))"
    by (induction es) (auto simp: colon_strip)
  then have "parse_specs (filter ?ne (map strip es)) [] =
             parse_specs (filter ?ne (map strip (filter ?hc es))) []"
    by (metis parse_specs_filter)
  then show ?thesis
    unfolding parse_neighbors_def specs_of_join[OF assms] specs_of_join[OF a2] by simp
qed

lemma junk_example:
  "parse_neighbors ''X: Y Z; junk ; Y: Z'' =
     [(''X'', [''Y'', ''Z'']), (''Y'', [''X'', ''Z'']), (''Z'', [''X'', ''Y''])]"
  by (simp add: parse_neighbors_def strip_def is_space_def split_ws_def graph_append_def)

lemma junk_declared:
  "declared_edges ''X: Y Z; junk ; Y: Z'' = [(''X'', ''Y''), (''X'', ''Z''), (''Y'', ''Z'')]"
  by (simp add: declared_edges_def entry_edges_def strip_def is_space_def split_ws_def)

text \<open>
  C7. For any text, the graph \<open>parse_neighbors\<close> returns holds exactly the declared
  adjacencies and their mirror images: \<open>B\<close> is in the list of \<open>A\<close> exactly when the text
  declares \<open>A\<close> adjacent to \<open>B\<close> or \<open>B\<close> adjacent to \<open>A\<close>; so it is symmetric. Its keys are
  distinct, each of its lists is duplicate-free, sorted and not empty. Entries without
  \<open>:\<close> are skipped and the others still parsed: a text of entries parses as the text of
  its entries that have a \<open>:\<close>, wherever the others stand (first, last, alone or
  between), and in particular an entry without \<open>:\<close> between two \<open>;\<close> can be left out.
\<close>

theorem parse_neighbors_graph:
  "(B \<in> set (adjacency (parse_neighbors src) A) \<longleftrightarrow>
      (A, B) \<in> set (declared_edges src) \<or> (B, A) \<in> set (declared_edges src)) \<and>
   (B \<in> set (adjacency (parse_neighbors src) A) \<longleftrightarrow> A \<in> set (adjacency (parse_neighbors src) B)) \<and>
   distinct (map fst (parse_neighbors src)) \<and>
   (\<forall>(k, l) \<in> set (parse_neighbors src). distinct l \<and> sorted l \<and> l \<noteq> []) \<and>
   (CHR '':'' \<notin> set e \<and> CHR '';'' \<notin> set e \<longrightarrow>
      parse_neighbors (s @ CHR '';'' # e @ CHR '';'' # t) = parse_neighbors (s @ CHR '';'' # t)) \<and>
   ((\<forall>e \<in> set es. CHR '';'' \<notin> set e) \<longrightarrow>
      parse_neighbors (join_entries es) =
      parse_neighbors (join_entries (filter (\<lambda>e. CHR '':'' \<in> set e) es)))"
  using parse_neighbors_edges[of B src A] parse_neighbors_sym[of B src A]
    parse_neighbors_keys[of src] parse_neighbors_lists[of _ _ src]
    parse_neighbors_nonempty[of _ _ src] parse_neighbors_skip[of e s t]
    parse_neighbors_skip_all[of es]
  by auto

theorem parse_neighbors_graph_witness:
  "parse_neighbors ''X: Y Z; junk ; Y: Z'' =
     [(''X'', [''Y'', ''Z'']), (''Y'', [''X'', ''Z'']), (''Z'', [''X'', ''Y''])] \<and>
   declared_edges ''X: Y Z; junk ; Y: Z'' = [(''X'', ''Y''), (''X'', ''Z''), (''Y'', ''Z'')] \<and>
   ''X'' \<in> set (adjacency (parse_neighbors ''X: Y Z; junk ; Y: Z'') ''Z'') \<and>
   ''Y'' \<notin> set (adjacency (parse_neighbors ''X: Y Z; junk ; Y: Z'') ''Y'') \<and>
   distinct (map fst (parse_neighbors ''X: Y Z; junk ; Y: Z'')) \<and>
   CHR '':'' \<notin> set '' junk '' \<and> CHR '';'' \<notin> set '' junk '' \<and>
   parse_neighbors (''X: Y Z'' @ CHR '';'' # '' junk '' @ CHR '';'' # '' Y: Z'') =
     parse_neighbors (''X: Y Z'' @ CHR '';'' # '' Y: Z'') \<and>
   parse_neighbors (join_entries [''junk'', ''X: Y Z'', '' Y: Z'', ''more junk'']) =
     parse_neighbors (join_entries [''X: Y Z'', '' Y: Z'']) \<and>
   parse_neighbors (join_entries [''junk'']) = parse_neighbors (join_entries [])"
proof -
  have h: "CHR '':'' \<notin> set '' junk '' \<and> CHR '';'' \<notin> set '' junk ''"
    by simp
  note t = parse_neighbors_graph[where src = "''X: Y Z; junk ; Y: Z''" and e = "'' junk ''"
      and s = "''X: Y Z''" and t = "'' Y: Z''"]
  from t[where B = "''X''" and A = "''Z''", THEN conjunct1]
  have e1: "''X'' \<in> set (adjacency (parse_neighbors ''X: Y Z; junk ; Y: Z'') ''Z'')"
    by (simp add: junk_declared)
  from t[where B = "''Y''" and A = "''Y''", THEN conjunct1]
  have e2: "''Y'' \<notin> set (adjacency (parse_neighbors ''X: Y Z; junk ; Y: Z'') ''Y'')"
    by (simp add: junk_declared)
  from t[where B = "''X''" and A = "''Z''"]
  have k: "distinct (map fst (parse_neighbors ''X: Y Z; junk ; Y: Z''))" by blast
  from t[where B = "''X''" and A = "''Z''"] h
  have sk: "parse_neighbors (''X: Y Z'' @ CHR '';'' # '' junk '' @ CHR '';'' # '' Y: Z'') =
     parse_neighbors (''X: Y Z'' @ CHR '';'' # '' Y: Z'')" by blast
  have a1: "\<forall>e \<in> set [''junk'', ''X: Y Z'', '' Y: Z'', ''more junk'']. CHR '';'' \<notin> set e" by simp
  have f1: "filter (\<lambda>e. CHR '':'' \<in> set e) [''junk'', ''X: Y Z'', '' Y: Z'', ''more junk''] =
            [''X: Y Z'', '' Y: Z'']" by simp
  from parse_neighbors_graph[where es = "[''junk'', ''X: Y Z'', '' Y: Z'', ''more junk'']"] a1
  have j1: "parse_neighbors (join_entries [''junk'', ''X: Y Z'', '' Y: Z'', ''more junk'']) =
     parse_neighbors (join_entries (filter (\<lambda>e. CHR '':'' \<in> set e)
        [''junk'', ''X: Y Z'', '' Y: Z'', ''more junk'']))" by blast
  have a2: "\<forall>e \<in> set [''junk'']. CHR '';'' \<notin> set e" by simp
  have f2: "filter (\<lambda>e. CHR '':'' \<in> set e) [''junk''] = []" by simp
  from parse_neighbors_graph[where es = "[''junk'']"] a2
  have j2: "parse_neighbors (join_entries [''junk'']) =
     parse_neighbors (join_entries (filter (\<lambda>e. CHR '':'' \<in> set e) [''junk'']))" by blast
  from junk_example junk_declared e1 e2 k h sk j1[unfolded f1] j2[unfolded f2]
  show ?thesis by blast
qed

subsection \<open>Searching without a trace\<close>

lemma log_untraced: "trace st = None \<Longrightarrow> log P ev a v x st = Inr st"
  by (simp add: log_def)

lemma try_value_untraced:
  assumes "trace st = None"
  shows "try_value (P\<lparr>max_steps := m\<rparr>) var val st a = try_value P var val st a"
  using assms
  by (simp add: try_value_def log_untraced assign_def
      cong: sum.case_cong prod.case_cong if_cong)

lemma undo_value_untraced:
  assumes "trace st = None"
  shows "undo_value (P\<lparr>max_steps := m\<rparr>) var val rem st a = undo_value P var val rem st a"
  using assms
  by (simp add: undo_value_def log_untraced Let_def cong: sum.case_cong)

lemma try_value_trace_None:
  assumes "trace st = None" "try_value P var val st a = Inr att"
  shows "case att of Conflict st1 \<Rightarrow> trace st1 = None \<and> step st1 = step st
         | Descend st1 a1 rem \<Rightarrow> trace st1 = None \<and> step st1 = step st
         | Failed st1 a1 rem \<Rightarrow> trace st1 = None \<and> step st1 = step st"
proof (cases att)
  case (Conflict st1)
  from try_value_ConflictD[OF assms(2)[unfolded Conflict]] obtain st0 where
    "log P TRY a (Some var) (Some val) st = Inr st0"
    "log P CONFLICT a (Some var) (Some val) st0 = Inr st1" by blast
  with assms(1) Conflict show ?thesis by (auto dest!: log_result)
next
  case (Descend st1 a1 rem)
  from try_value_DescendD[OF assms(2)[unfolded Descend]] obtain st0 st2 c3 where
    h: "log P TRY a (Some var) (Some val) st = Inr st0"
       "log P ASSIGN a1 (Some var) (Some val)
             (st0\<lparr>csp_of := (csp_of st0)\<lparr>nassigns := nassigns (csp_of st0) + 1\<rparr>\<rparr>) = Inr st2"
       "st1 = st2\<lparr>csp_of := c3\<rparr>" by blast
  from log_result[OF h(1)] assms(1) have "st0 = st" by simp
  with log_result[OF h(2)] assms(1) h(3) Descend show ?thesis by simp
next
  case (Failed st1 a1 rem)
  from try_value_FailedD[OF assms(2)[unfolded Failed]] obtain st0 st2 c3 where
    h: "log P TRY a (Some var) (Some val) st = Inr st0"
       "log P ASSIGN a1 (Some var) (Some val)
             (st0\<lparr>csp_of := (csp_of st0)\<lparr>nassigns := nassigns (csp_of st0) + 1\<rparr>\<rparr>) = Inr st2"
       "log P INFER_FAIL a1 (Some var) (Some val) (st2\<lparr>csp_of := c3\<rparr>) = Inr st1" by blast
  from log_result[OF h(1)] assms(1) have "st0 = st" by simp
  with log_result[OF h(2)] assms(1) have "trace st2 = None \<and> step st2 = step st" by simp
  with log_result[OF h(3)] Failed show ?thesis by simp
qed

lemma undo_value_trace_None:
  assumes "trace st = None" "undo_value P var val rem st a = Inr (st1, a1)"
  shows "trace st1 = None \<and> step st1 = step st"
proof -
  from undo_valueD[OF assms(2)] obtain c1 where
    l: "log P BACKTRACK a1 (Some var) (Some val) (st\<lparr>csp_of := c1\<rparr>) = Inr st1" by blast
  have "trace (st\<lparr>csp_of := c1\<rparr>) = None" using assms(1) by simp
  from l[unfolded log_untraced[OF this]] have "st1 = st\<lparr>csp_of := c1\<rparr>" by simp
  then show ?thesis using assms(1) by simp
qed

lemma engine_untraced:
  assumes "trace st = None"
  shows "backtrack n P st a = Some (Inr (r, st', a')) \<Longrightarrow> trace st' = None \<and> step st' = step st"
    and "try_values n P var vals st a = Some (Inr (r, st', a')) \<Longrightarrow>
           trace st' = None \<and> step st' = step st"
proof -
  let ?R = "\<lambda>(s :: ('a, 'b) search_state \<times> ('a, 'b) assignment) (t :: ('a, 'b) search_state \<times> ('a, 'b) assignment).
              trace (fst s) = None \<longrightarrow> trace (fst t) = None \<and> step (fst t) = step (fst s)"
  have r: "?R s s" for s by simp
  have t: "?R s t \<Longrightarrow> ?R t u \<Longrightarrow> ?R s u" for s t u by simp
  have g: "?R (st, a) (st1, a)" if "log P GOAL a None None st = Inr st1" for st a st1
    using that by (auto simp: log_untraced)
  have s: "?R (st, a) (st\<lparr>rng := g\<rparr>, a)" for st :: "('a, 'b) search_state" and a g
    by simp
  have c: "?R (st, a) (st1, a)" if "try_value P var val st a = Inr (Conflict st1)"
    for var val st a st1
    using try_value_trace_None[OF _ that] by simp
  have d: "?R (st, a) (st1, a1)" if "try_value P var val st a = Inr (Descend st1 a1 rem)"
    for var val st a st1 a1 rem
    using try_value_trace_None[OF _ that] by simp
  have f: "?R (st, a) (st1, a1)" if "try_value P var val st a = Inr (Failed st1 a1 rem)"
    for var val st a st1 a1 rem
    using try_value_trace_None[OF _ that] by simp
  have u: "?R (st, a) (st1, a1)" if "undo_value P var val rem st a = Inr (st1, a1)"
    for var val rem st a st1 a1
    using undo_value_trace_None[OF _ that] by simp
  show "trace st' = None \<and> step st' = step st" if run: "backtrack n P st a = Some (Inr (r, st', a'))"
  proof -
    have "?R (st, a) (st', a')"
      by (rule engine_relation(1)[where R = ?R and P = P, OF r t g s c d f u run])
    then have "trace st = None \<longrightarrow> trace st' = None \<and> step st' = step st"
      by (simp only: fst_conv)
    with assms show ?thesis by blast
  qed
  show "trace st' = None \<and> step st' = step st"
    if run: "try_values n P var vals st a = Some (Inr (r, st', a'))"
  proof -
    have "?R (st, a) (st', a')"
      by (rule engine_relation(2)[where R = ?R and P = P, OF r t g s c d f u run])
    then have "trace st = None \<longrightarrow> trace st' = None \<and> step st' = step st"
      by (simp only: fst_conv)
    with assms show ?thesis by blast
  qed
qed

lemma engine_cap_untraced:
  "trace st = None \<Longrightarrow> backtrack n (P\<lparr>max_steps := m\<rparr>) st a = backtrack n P st a"
  "trace st = None \<Longrightarrow>
     try_values n (P\<lparr>max_steps := m\<rparr>) var vals st a = try_values n P var vals st a"
proof -
  have "trace st = None \<longrightarrow> backtrack n (P\<lparr>max_steps := m\<rparr>) st a = backtrack n P st a"
    and "trace st = None \<longrightarrow>
     try_values n (P\<lparr>max_steps := m\<rparr>) var vals st a = try_values n P var vals st a"
  proof (induction n P st a and n P var vals st a rule: engine_induct)
    case (Zero P st a)
    show ?case by simp
  next
    case (Backtrack n P st a)
    show ?case
    proof
      assume tn: "trace st = None"
      show "backtrack (Suc n) (P\<lparr>max_steps := m\<rparr>) st a = backtrack (Suc n) P st a"
      proof (cases "length a = length (variables (csp_of st))")
        case True
        then show ?thesis using tn by (simp add: log_untraced)
      next
        case False
        show ?thesis
        proof (cases "select_unassigned_variable P a (csp_of st) (rng st)")
          case (Inl e)
          with False show ?thesis by simp
        next
          case (Inr p)
          obtain var g where p: "p = (var, g)" by (cases p)
          show ?thesis
          proof (cases "order_domain_values P var a (csp_of st)")
            case (Inl e)
            with False Inr p show ?thesis by simp
          next
            case ord: (Inr vals)
            from Backtrack[OF False Inr[unfolded p] ord] tn
            have "try_values n (P\<lparr>max_steps := m\<rparr>) var vals (st\<lparr>rng := g\<rparr>) a =
                  try_values n P var vals (st\<lparr>rng := g\<rparr>) a" by simp
            with False Inr p ord show ?thesis by simp
          qed
        qed
      qed
    qed
  next
    case (Nil n P var st a)
    show ?case by simp
  next
    case (Cons n P var val rest st a)
    show ?case
    proof
      assume tn: "trace st = None"
      note tv = try_value_untraced[OF tn, where P = P and m = m and var = var and val = val and a = a]
      show "try_values n (P\<lparr>max_steps := m\<rparr>) var (val # rest) st a =
            try_values n P var (val # rest) st a"
      proof (cases "try_value P var val st a")
        case (Inl e)
        with tv show ?thesis by simp
      next
        case (Inr att)
        note tr = try_value_trace_None[OF tn Inr]
        show ?thesis
        proof (cases att)
          case (Conflict st1)
          with tr have "trace st1 = None" by simp
          with Cons(1)[OF Inr[unfolded Conflict]] tv Inr Conflict show ?thesis by simp
        next
          case (Failed st1 a1 rem)
          with tr have t1: "trace st1 = None" by simp
          note uv = undo_value_untraced[OF t1, where P = P and m = m and var = var and val = val and rem = rem and a = a1]
          show ?thesis
          proof (cases "undo_value P var val rem st1 a1")
            case (Inl e)
            with tv uv Inr Failed show ?thesis by simp
          next
            case u: (Inr q)
            obtain st2 a2 where q: "q = (st2, a2)" by (cases q)
            from undo_value_trace_None[OF t1 u[unfolded q]] have "trace st2 = None" by simp
            with Cons(4)[OF Inr[unfolded Failed] u[unfolded q]] tv uv Inr Failed u q
            show ?thesis by simp
          qed
        next
          case (Descend st1 a1 rem)
          with tr have t1: "trace st1 = None" by simp
          from Cons(2)[OF Inr[unfolded Descend]] t1
          have bt: "backtrack n (P\<lparr>max_steps := m\<rparr>) st1 a1 = backtrack n P st1 a1" by simp
          show ?thesis
          proof (cases "backtrack n P st1 a1")
            case None
            with tv bt Inr Descend show ?thesis by simp
          next
            case (Some res)
            show ?thesis
            proof (cases res)
              case (Inl e)
              with tv bt Inr Descend Some show ?thesis by simp
            next
              case ok: (Inr t)
              obtain r2 st2 a2 where t: "t = (r2, st2, a2)" by (cases t)
              show ?thesis
              proof (cases r2)
                case found: (Some x)
                with tv bt Inr Descend Some ok t show ?thesis by simp
              next
                case None
                from engine_untraced(1)[OF t1 Some[unfolded ok t]] have t2: "trace st2 = None" by simp
                note uv = undo_value_untraced[OF t2, where P = P and m = m and var = var and val = val and rem = rem and a = a2]
                show ?thesis
                proof (cases "undo_value P var val rem st2 a2")
                  case (Inl e)
                  with tv bt uv Inr Descend Some ok t None show ?thesis by simp
                next
                  case u: (Inr q)
                  obtain st3 a3 where q: "q = (st3, a3)" by (cases q)
                  from undo_value_trace_None[OF t2 u[unfolded q]] have "trace st3 = None" by simp
                  with Cons(3)[OF Inr[unfolded Descend] Some[unfolded ok t None] u[unfolded q]]
                    tv bt uv Inr Descend Some ok t None u q
                  show ?thesis by simp
                qed
              qed
            qed
          qed
        qed
      qed
    qed
  qed
  then show "trace st = None \<Longrightarrow> backtrack n (P\<lparr>max_steps := m\<rparr>) st a = backtrack n P st a"
    and "trace st = None \<Longrightarrow>
     try_values n (P\<lparr>max_steps := m\<rparr>) var vals st a = try_values n P var vals st a"
    by blast+
qed

lemma log_error:
  "log P ev a v x st = Inl e \<Longrightarrow> e = RuntimeError \<and> max_steps P \<noteq> None \<and> trace st \<noteq> None"
  by (auto simp: log_def Let_def split: option.splits if_splits)

lemma copy_domains_error: "copy_domains ds vs acc = Inl e \<Longrightarrow> e = KeyError"
  by (induction vs arbitrary: acc) (auto split: option.splits)

lemma support_pruning_error: "support_pruning c = Inl e \<Longrightarrow> e = KeyError"
  by (auto simp: support_pruning_def split: option.splits sum.splits dest: copy_domains_error)

lemma suppose_error: "suppose c v x = Inl e \<Longrightarrow> e = KeyError \<or> e = AssertionError"
  by (auto simp: suppose_def suppose_cd_def split: option.splits sum.splits
      dest: support_pruning_error)

lemma restore_cd_error: "restore_cd cd removals = Inl e \<Longrightarrow> e = KeyError"
  by (induction cd removals rule: restore_cd.induct) (auto split: option.splits)

lemma restore_error: "restore c removals = Inl e \<Longrightarrow> e = KeyError \<or> e = AssertionError"
  by (auto simp: restore_def split: option.splits sum.splits dest: restore_cd_error)

lemma all_no_conflicts_error: "all_no_conflicts c a vs = Inl e \<Longrightarrow> e = KeyError"
  by (induction vs) (auto split: option.splits if_splits)

lemma is_goal_error: "is_goal c a = Inl e \<Longrightarrow> e = KeyError"
  by (auto simp: is_goal_def split: if_splits dest: all_no_conflicts_error)

lemma try_value_error:
  assumes "try_value P var val st a = Inl e" "max_steps P = None"
    "\<forall>c v x a removals. inference P c v x a removals \<noteq> Inl RuntimeError"
  shows "e \<noteq> RuntimeError"
proof
  assume e: "e = RuntimeError"
  have l: "log P ev b v x s \<noteq> Inl e'" for ev b v x s e'
    using log_error[of P ev b v x s e'] assms(2) by auto
  from assms(1) e l assms(3) show False
    by (auto simp: try_value_def assign_def split: sum.splits if_splits prod.splits
        dest: suppose_error)
qed

lemma undo_value_error:
  assumes "undo_value P var val rem st a = Inl e" "max_steps P = None"
  shows "e \<noteq> RuntimeError"
proof
  assume e: "e = RuntimeError"
  have l: "log P ev b v x s \<noteq> Inl e'" for ev b v x s e'
    using log_error[of P ev b v x s e'] assms(2) by auto
  from assms(1) e l show False
    by (auto simp: undo_value_def Let_def split: sum.splits dest: restore_error)
qed

lemma engine_no_overflow:
  assumes m: "max_steps P = None"
    and nre: "no_runtime_errors (select_unassigned_variable P) (order_domain_values P) (inference P)"
  shows "backtrack n P st a \<noteq> Some (Inl RuntimeError)"
    and "try_values n P var vals st a \<noteq> Some (Inl RuntimeError)"
proof -
  let ?ok = "\<lambda>P :: ('a, 'b) params. max_steps P = None \<and>
     no_runtime_errors (select_unassigned_variable P) (order_domain_values P) (inference P)"
  have "?ok P \<longrightarrow> backtrack n P st a \<noteq> Some (Inl RuntimeError)"
    and "?ok P \<longrightarrow> try_values n P var vals st a \<noteq> Some (Inl RuntimeError)"
  proof (induction n P st a and n P var vals st a rule: engine_induct)
    case (Zero P st a)
    show ?case by simp
  next
    case (Backtrack n P st a)
    show ?case
    proof
      assume ok: "?ok P"
      then have l: "log P ev b v x s \<noteq> Inl e'" for ev b v x s e'
        using log_error[of P ev b v x s e'] by auto
      show "backtrack (Suc n) P st a \<noteq> Some (Inl RuntimeError)"
      proof (cases "length a = length (variables (csp_of st))")
        case True
        then show ?thesis using l[of GOAL a None None st] by (simp split: sum.splits)
      next
        case False
        show ?thesis
        proof (cases "select_unassigned_variable P a (csp_of st) (rng st)")
          case (Inl e)
          with ok have "e \<noteq> RuntimeError" by (auto simp: no_runtime_errors_def)
          with False Inl show ?thesis by simp
        next
          case (Inr p)
          obtain var g where p: "p = (var, g)" by (cases p)
          show ?thesis
          proof (cases "order_domain_values P var a (csp_of st)")
            case (Inl e)
            with ok have "e \<noteq> RuntimeError" by (auto simp: no_runtime_errors_def)
            with False Inr p Inl show ?thesis by simp
          next
            case ord: (Inr vals)
            from Backtrack[OF False Inr[unfolded p] ord] ok False Inr p ord show ?thesis by simp
          qed
        qed
      qed
    qed
  next
    case (Nil n P var st a)
    show ?case by simp
  next
    case (Cons n P var val rest st a)
    show ?case
    proof
      assume ok: "?ok P"
      then have inf: "\<forall>c v x a removals. inference P c v x a removals \<noteq> Inl RuntimeError"
        by (simp add: no_runtime_errors_def)
      from ok have m: "max_steps P = None" by simp
      show "try_values n P var (val # rest) st a \<noteq> Some (Inl RuntimeError)"
      proof (cases "try_value P var val st a")
        case (Inl e)
        from try_value_error[OF Inl m inf] Inl show ?thesis by simp
      next
        case (Inr att)
        show ?thesis
        proof (cases att)
          case (Conflict st1)
          with Cons(1)[OF Inr[unfolded Conflict]] ok Inr show ?thesis by simp
        next
          case (Failed st1 a1 rem)
          show ?thesis
          proof (cases "undo_value P var val rem st1 a1")
            case (Inl e)
            from undo_value_error[OF Inl m] Inr Failed Inl show ?thesis by simp
          next
            case u: (Inr q)
            obtain st2 a2 where q: "q = (st2, a2)" by (cases q)
            from Cons(4)[OF Inr[unfolded Failed] u[unfolded q]] ok Inr Failed u q
            show ?thesis by simp
          qed
        next
          case (Descend st1 a1 rem)
          from Cons(2)[OF Inr[unfolded Descend]] ok
          have bt: "backtrack n P st1 a1 \<noteq> Some (Inl RuntimeError)" by simp
          show ?thesis
          proof (cases "backtrack n P st1 a1")
            case None
            with Inr Descend show ?thesis by simp
          next
            case (Some res)
            show ?thesis
            proof (cases res)
              case (Inl e)
              with bt Some have "e \<noteq> RuntimeError" by simp
              with Inr Descend Some Inl show ?thesis by simp
            next
              case okr: (Inr t)
              obtain r2 st2 a2 where t: "t = (r2, st2, a2)" by (cases t)
              show ?thesis
              proof (cases r2)
                case found: (Some x)
                with Inr Descend Some okr t show ?thesis by simp
              next
                case None
                show ?thesis
                proof (cases "undo_value P var val rem st2 a2")
                  case (Inl e)
                  from undo_value_error[OF Inl m] Inr Descend Some okr t None Inl
                  show ?thesis by simp
                next
                  case u: (Inr q)
                  obtain st3 a3 where q: "q = (st3, a3)" by (cases q)
                  from Cons(3)[OF Inr[unfolded Descend] Some[unfolded okr t None] u[unfolded q]]
                    ok Inr Descend Some okr t None u q
                  show ?thesis by simp
                qed
              qed
            qed
          qed
        qed
      qed
    qed
  qed
  with m nre show "backtrack n P st a \<noteq> Some (Inl RuntimeError)"
    and "try_values n P var vals st a \<noteq> Some (Inl RuntimeError)"
    by blast+
qed

lemma prune_cd_error: "prune_cd cd var val removals = Inl e \<Longrightarrow> e = KeyError"
  by (auto simp: prune_cd_def split: option.splits if_splits)

lemma fc_values_error: "fc_values con var val B bs cd removals = Inl e \<Longrightarrow> e = KeyError"
  by (induction bs arbitrary: cd removals)
     (auto split: if_splits sum.splits prod.splits dest: prune_cd_error)

lemma fc_neighbors_error: "fc_neighbors con var val a Bs cd removals = Inl e \<Longrightarrow> e = KeyError"
  by (induction Bs arbitrary: cd removals)
     (auto split: if_splits option.splits sum.splits prod.splits dest: fc_values_error)

lemma forward_checking_error:
  "forward_checking c var val a removals = Inl e \<Longrightarrow> e = KeyError \<or> e = AssertionError"
  by (auto simp: forward_checking_def split: option.splits sum.splits prod.splits
      dest: support_pruning_error fc_neighbors_error)

lemma choices_error: "choices c var = Inl e \<Longrightarrow> e = KeyError"
  by (auto simp: choices_def split: option.splits if_splits)

lemma lcv_error: "lcv var a c = Inl e \<Longrightarrow> e = KeyError"
  by (auto simp: lcv_def split: sum.splits dest: choices_error)

lemma num_legal_values_error: "num_legal_values c var a = Inl e \<Longrightarrow> e = KeyError"
  by (auto simp: num_legal_values_def split: option.splits)

lemma argmin_loop_error: "argmin_loop key xs best = Inl e \<Longrightarrow> \<exists>x. key x = Inl e"
  by (induction key xs best rule: argmin_loop.induct)
     (auto split: sum.splits option.splits prod.splits if_splits)

lemma mrv_error: "mrv a c g = Inl e \<Longrightarrow> e = KeyError \<or> e = TypeError \<or> e = IndexError"
  by (auto simp: mrv_def argmin_random_tie_def random_choice_def
      split: sum.splits option.splits prod.splits if_splits
      dest!: argmin_loop_error dest: num_legal_values_error)

lemma first_unassigned_variable_error:
  "first_unassigned_variable a c g = Inl e \<Longrightarrow> e = StopIteration"
  by (auto simp: first_unassigned_variable_def first_def split: sum.splits list.splits)

lemma no_runtime_errors_mrv_lcv_forward_checking:
  "no_runtime_errors mrv lcv forward_checking"
  unfolding no_runtime_errors_def
  by (auto dest: mrv_error lcv_error forward_checking_error)

lemma traced_run_overflow: "traced_run (Some 0) = Some (Inl RuntimeError)"
  by (simp add: traced_run_def engine_defs two_regions_def numeral_3_eq_3)

text \<open>
  C10. When \<open>backtracking_search\<close> is called with \<open>trace=None\<close>, \<open>log\<close> returns the state as it
  is, before the step counter is incremented. So the value of \<open>max_steps\<close> does not change
  what the search returns (any two values give the same outcome, for every amount of fuel:
  the same result, the same error or the same exhaustion); a run that returns leaves the step
  counter at 0 and the trace absent; and the run does not end in the RuntimeError of the trace
  overflow, provided that the three strategies do not raise a RuntimeError of their own.
\<close>

theorem untraced_search_ignores_max_steps:
  "log P ev a v x (st\<lparr>trace := None\<rparr>) = Inr (st\<lparr>trace := None\<rparr>) \<and>
   backtracking_search fuel c sel ordr infr None ms g =
     backtracking_search fuel c sel ordr infr None ms' g \<and>
   (backtracking_search fuel c sel ordr infr None ms g = Some (Inr (r, st')) \<longrightarrow>
      step st' = 0 \<and> trace st' = None) \<and>
   (no_runtime_errors sel ordr infr \<longrightarrow>
      backtracking_search fuel c sel ordr infr None ms g \<noteq> Some (Inl RuntimeError))"
proof -
  let ?P = "\<lambda>m. \<lparr>select_unassigned_variable = sel, order_domain_values = ordr, inference = infr,
              max_steps = m\<rparr>"
  let ?st = "\<lparr>csp_of = c, trace = None, step = 0, rng = g\<rparr>"
  have t: "trace ?st = None" by simp
  have cap: "backtrack fuel (?P m) ?st [] = backtrack fuel (?P None) ?st []" for m
    using engine_cap_untraced(1)[OF t, where n = fuel and P = "?P None" and m = m and a = "[]"] by simp
  have eq: "backtracking_search fuel c sel ordr infr None m g =
      backtracking_search fuel c sel ordr infr None None g" for m
    unfolding backtracking_search_def cap[of m] ..
  have l: "log P ev a v x (st\<lparr>trace := None\<rparr>) = Inr (st\<lparr>trace := None\<rparr>)"
    by (rule log_untraced) simp
  have s: "step st' = 0 \<and> trace st' = None"
    if run: "backtracking_search fuel c sel ordr infr None ms g = Some (Inr (r, st'))"
  proof -
    from run obtain r' a' where b: "backtrack fuel (?P ms) ?st [] = Some (Inr (r', st', a'))"
      unfolding backtracking_search_def
      by (auto split: option.splits sum.splits prod.splits if_splits)
    from engine_untraced(1)[OF t b] show ?thesis by simp
  qed
  have n: "backtracking_search fuel c sel ordr infr None ms g \<noteq> Some (Inl RuntimeError)"
    if nre: "no_runtime_errors sel ordr infr"
  proof -
    have "backtrack fuel (?P None) ?st [] \<noteq> Some (Inl RuntimeError)"
      by (rule engine_no_overflow(1)) (use nre in simp_all)
    then have "backtracking_search fuel c sel ordr infr None None g \<noteq> Some (Inl RuntimeError)"
      unfolding backtracking_search_def
      by (auto split: option.splits sum.splits prod.splits if_splits dest: is_goal_error)
    then show ?thesis unfolding eq[of ms] .
  qed
  from l eq[of ms] eq[of ms'] s n show ?thesis by (simp only: simp_thms) blast
qed

theorem untraced_search_ignores_max_steps_witness:
  "untraced_run (Some 0) = untraced_run None \<and>
   untraced_run (Some 0) =
     Some (Inr (Some [(''A'', CHR ''R''), (''B'', CHR ''G'')],
       \<lparr>csp_of = two_regions\<lparr>curr_domains := Some [(''A'', ''R''), (''B'', ''G'')], nassigns := 2\<rparr>,
        trace = None, step = 0, rng = (\<lambda>_. 0)\<rparr>)) \<and>
   no_runtime_errors (mrv :: (string, char) selector) lcv forward_checking \<and>
   untraced_run (Some 0) \<noteq> Some (Inl RuntimeError) \<and>
   traced_run (Some 0) = Some (Inl RuntimeError)"
proof -
  note inst = untraced_search_ignores_max_steps[where fuel = 3 and c = two_regions and sel = mrv
      and ordr = lcv and infr = forward_checking and ms = "Some 0" and ms' = None
      and g = "\<lambda>_. 0", folded untraced_run_def]
  have e: "untraced_run (Some 0) = untraced_run None"
    by (rule inst[THEN conjunct2, THEN conjunct1])
  have v: "untraced_run None = Some (Inr (Some [(''A'', CHR ''R''), (''B'', CHR ''G'')],
       \<lparr>csp_of = two_regions\<lparr>curr_domains := Some [(''A'', ''R''), (''B'', ''G'')], nassigns := 2\<rparr>,
        trace = None, step = 0, rng = (\<lambda>_. 0)\<rparr>))"
    unfolding untraced_run_def by (rule two_regions_run)
  have nre: "no_runtime_errors (mrv :: (string, char) selector) lcv forward_checking"
    by (rule no_runtime_errors_mrv_lcv_forward_checking)
  have n: "untraced_run (Some 0) \<noteq> Some (Inl RuntimeError)"
    using inst[THEN conjunct2, THEN conjunct2, THEN conjunct2] nre by blast
  from e v nre n traced_run_overflow show ?thesis by (simp only: simp_thms)
qed

subsection \<open>Runs that differ in the random generator only\<close>

lemma log_rng:
  "log P ev a v x (st\<lparr>rng := g\<rparr>) = map_sum id (\<lambda>s. s\<lparr>rng := g\<rparr>) (log P ev a v x st)"
  by (simp add: log_def Let_def split: option.splits)

lemma log_rng_csp:
  "log P ev a v x (st\<lparr>rng := g, csp_of := c\<rparr>) =
     map_sum id (\<lambda>s. s\<lparr>rng := g\<rparr>) (log P ev a v x (st\<lparr>csp_of := c\<rparr>))"
  by (simp add: log_def Let_def split: option.splits)

lemma try_value_rng:
  "try_value P var val (st\<lparr>rng := g\<rparr>) a =
     (case try_value P var val st a of
        Inl e \<Rightarrow> Inl e
      | Inr (Conflict s) \<Rightarrow> Inr (Conflict (s\<lparr>rng := g\<rparr>))
      | Inr (Descend s b rem) \<Rightarrow> Inr (Descend (s\<lparr>rng := g\<rparr>) b rem)
      | Inr (Failed s b rem) \<Rightarrow> Inr (Failed (s\<lparr>rng := g\<rparr>) b rem))"
  proof (cases "log P TRY a (Some var) (Some val) st")
  case (Inl e)
  then show ?thesis by (simp add: try_value_def log_rng)
next
  case l1: (Inr st1)
  show ?thesis
  proof (cases "nconflicts (csp_of st1) var val a \<noteq> 0")
    case True
    with l1 show ?thesis
      by (cases "log P CONFLICT a (Some var) (Some val) st1") (simp_all add: try_value_def log_rng)
  next
    case False
    obtain c1 a1 where as: "assign (csp_of st1) var val a = (c1, a1)" by (cases "assign (csp_of st1) var val a")
    show ?thesis
    proof (cases "log P ASSIGN a1 (Some var) (Some val) (st1\<lparr>csp_of := c1\<rparr>)")
      case (Inl e)
      with l1 False as show ?thesis by (simp add: try_value_def log_rng log_rng_csp)
    next
      case l2: (Inr st2)
      show ?thesis
      proof (cases "suppose (csp_of st2) var val")
        case (Inl e)
        with l1 False as l2 show ?thesis by (simp add: try_value_def log_rng log_rng_csp)
      next
        case su: (Inr q)
        obtain c2 rem where q: "q = (c2, rem)" by (cases q)
        show ?thesis
        proof (cases "inference P c2 var val a1 rem")
          case (Inl e)
          with l1 False as l2 su q show ?thesis by (simp add: try_value_def log_rng log_rng_csp)
        next
          case inf: (Inr t)
          obtain ok c3 rem' where t: "t = (ok, c3, rem')" by (cases t)
          show ?thesis
          proof (cases ok)
            case True
            with l1 False as l2 su q inf t show ?thesis
              by (simp add: try_value_def log_rng log_rng_csp)
          next
            case nok: False
            with l1 False as l2 su q inf t show ?thesis
              by (cases "log P INFER_FAIL a1 (Some var) (Some val) (st2\<lparr>csp_of := c3\<rparr>)")
                 (simp_all add: try_value_def log_rng log_rng_csp)
          qed
        qed
      qed
    qed
  qed
qed

lemma undo_value_rng:
  "undo_value P var val rem (st\<lparr>rng := g\<rparr>) a =
     map_sum id (\<lambda>(s, b). (s\<lparr>rng := g\<rparr>, b)) (undo_value P var val rem st a)"
  proof (cases "restore (csp_of st) rem")
  case (Inl e)
  then show ?thesis by (simp add: undo_value_def)
next
  case (Inr c1)
  then show ?thesis
    by (cases "log P BACKTRACK (unassign var a) (Some var) (Some val) (st\<lparr>csp_of := c1\<rparr>)")
       (simp_all add: undo_value_def log_rng_csp Let_def)
qed

lemma first_unassigned_variable_rng:
  "first_unassigned_variable a c g = Inr (var, g') \<Longrightarrow> g' = g"
  "first_unassigned_variable a c g = Inr (var, g') \<Longrightarrow> first_unassigned_variable a c h = Inr (var, h)"
  "first_unassigned_variable a c g = Inl e \<Longrightarrow> first_unassigned_variable a c h = Inl e"
  by (auto simp: first_unassigned_variable_def split: sum.splits)

lemma engine_rng:
  assumes sel: "select_unassigned_variable P = first_unassigned_variable"
  shows "backtrack n P (st\<lparr>rng := g\<rparr>) a =
           map_option (map_sum id (\<lambda>(r, s, b). (r, s\<lparr>rng := g\<rparr>, b))) (backtrack n P st a)"
    and "try_values n P var vals (st\<lparr>rng := g\<rparr>) a =
           map_option (map_sum id (\<lambda>(r, s, b). (r, s\<lparr>rng := g\<rparr>, b))) (try_values n P var vals st a)"
proof -
  let ?m = "\<lambda>g. map_option (map_sum id (\<lambda>(r :: ('a, 'b) assignment option, s :: ('a, 'b) search_state, b :: ('a, 'b) assignment). (r, s\<lparr>rng := g\<rparr>, b)))"
  have "select_unassigned_variable P = first_unassigned_variable \<longrightarrow>
          (\<forall>g. backtrack n P (st\<lparr>rng := g\<rparr>) a = ?m g (backtrack n P st a))"
    and "select_unassigned_variable P = first_unassigned_variable \<longrightarrow>
          (\<forall>g. try_values n P var vals (st\<lparr>rng := g\<rparr>) a = ?m g (try_values n P var vals st a))"
  proof (induction n P st a and n P var vals st a rule: engine_induct)
    case (Zero P st a)
    show ?case by simp
  next
    case (Backtrack n P st a)
    show ?case
    proof (intro impI allI)
      fix g
      assume s: "select_unassigned_variable P = first_unassigned_variable"
      show "backtrack (Suc n) P (st\<lparr>rng := g\<rparr>) a = ?m g (backtrack (Suc n) P st a)"
      proof (cases "length a = length (variables (csp_of st))")
        case True
        then show ?thesis by (cases "log P GOAL a None None st") (simp_all add: log_rng)
      next
        case False
        show ?thesis
        proof (cases "first_unassigned_variable a (csp_of st) (rng st)")
          case (Inl e)
          from first_unassigned_variable_rng(3)[OF Inl, of g] Inl False s show ?thesis by simp
        next
          case (Inr p)
          obtain var g0 where p: "p = (var, g0)" by (cases p)
          from Inr p have g0: "g0 = rng st" by (simp add: first_unassigned_variable_rng(1))
          from Inr p have sg: "first_unassigned_variable a (csp_of st) g = Inr (var, g)"
            by (simp add: first_unassigned_variable_rng(2))
          show ?thesis
          proof (cases "order_domain_values P var a (csp_of st)")
            case (Inl e)
            with False Inr p sg s show ?thesis by simp
          next
            case ord: (Inr vals)
            from Inr p s have sl: "select_unassigned_variable P a (csp_of st) (rng st) = Inr (var, g0)"
              by simp
            from Backtrack[OF False sl ord] s
            have "try_values n P var vals (st\<lparr>rng := g0\<rparr>\<lparr>rng := g\<rparr>) a =
                    ?m g (try_values n P var vals (st\<lparr>rng := g0\<rparr>) a)" by blast
            with False Inr p sg s ord show ?thesis by simp
          qed
        qed
      qed
    qed
  next
    case (Nil n P var st a)
    show ?case by simp
  next
    case (Cons n P var val rest st a)
    show ?case
    proof (intro impI allI)
      fix g
      assume s: "select_unassigned_variable P = first_unassigned_variable"
      show "try_values n P var (val # rest) (st\<lparr>rng := g\<rparr>) a = ?m g (try_values n P var (val # rest) st a)"
      proof (cases "try_value P var val st a")
        case (Inl e)
        then show ?thesis by (simp add: try_value_rng)
      next
        case (Inr att)
        show ?thesis
        proof (cases att)
          case (Conflict st1)
          from Cons(1)[OF Inr[unfolded Conflict]] s
          have "try_values n P var rest (st1\<lparr>rng := g\<rparr>) a = ?m g (try_values n P var rest st1 a)"
            by blast
          with Inr Conflict show ?thesis by (simp add: try_value_rng)
        next
          case (Failed st1 a1 rem)
          show ?thesis
          proof (cases "undo_value P var val rem st1 a1")
            case (Inl e)
            with Inr Failed show ?thesis by (simp add: try_value_rng undo_value_rng)
          next
            case u: (Inr q)
            obtain st2 a2 where q: "q = (st2, a2)" by (cases q)
            from Cons(4)[OF Inr[unfolded Failed] u[unfolded q]] s
            have "try_values n P var rest (st2\<lparr>rng := g\<rparr>) a2 = ?m g (try_values n P var rest st2 a2)"
              by blast
            with Inr Failed u q show ?thesis by (simp add: try_value_rng undo_value_rng)
          qed
        next
          case (Descend st1 a1 rem)
          from Cons(2)[OF Inr[unfolded Descend]] s
          have bt: "backtrack n P (st1\<lparr>rng := g\<rparr>) a1 = ?m g (backtrack n P st1 a1)" by blast
          show ?thesis
          proof (cases "backtrack n P st1 a1")
            case None
            with Inr Descend bt show ?thesis by (simp add: try_value_rng)
          next
            case (Some res)
            show ?thesis
            proof (cases res)
              case (Inl e)
              with Inr Descend Some bt show ?thesis by (simp add: try_value_rng)
            next
              case okr: (Inr t)
              obtain r2 st2 a2 where t: "t = (r2, st2, a2)" by (cases t)
              show ?thesis
              proof (cases r2)
                case found: (Some x)
                with Inr Descend Some okr t bt show ?thesis by (simp add: try_value_rng)
              next
                case None
                show ?thesis
                proof (cases "undo_value P var val rem st2 a2")
                  case (Inl e)
                  with Inr Descend Some okr t None bt show ?thesis
                    by (simp add: try_value_rng undo_value_rng)
                next
                  case u: (Inr q)
                  obtain st3 a3 where q: "q = (st3, a3)" by (cases q)
                  from Cons(3)[OF Inr[unfolded Descend] Some[unfolded okr t None] u[unfolded q]] s
                  have "try_values n P var rest (st3\<lparr>rng := g\<rparr>) a3 =
                          ?m g (try_values n P var rest st3 a3)" by blast
                  with Inr Descend Some okr t None bt u q show ?thesis
                    by (simp add: try_value_rng undo_value_rng)
                qed
              qed
            qed
          qed
        qed
      qed
    qed
  qed
  with sel show "backtrack n P (st\<lparr>rng := g\<rparr>) a = ?m g (backtrack n P st a)"
    and "try_values n P var vals (st\<lparr>rng := g\<rparr>) a = ?m g (try_values n P var vals st a)"
    by blast+
qed

lemma search_rng:
  "backtracking_search fuel c first_unassigned_variable ordr infr tr ms g' =
     map_option (map_sum id (\<lambda>(r, st). (r, st\<lparr>rng := g'\<rparr>)))
       (backtracking_search fuel c first_unassigned_variable ordr infr tr ms g)"
proof -
  let ?P = "\<lparr>select_unassigned_variable = first_unassigned_variable, order_domain_values = ordr,
             inference = infr, max_steps = ms\<rparr>"
  let ?st = "\<lparr>csp_of = c, trace = tr, step = 0, rng = g\<rparr>"
  have "backtrack fuel ?P (?st\<lparr>rng := g'\<rparr>) [] =
      map_option (map_sum id (\<lambda>(r, s, b). (r, s\<lparr>rng := g'\<rparr>, b))) (backtrack fuel ?P ?st [])"
    by (rule engine_rng(1)) simp
  then have b: "backtrack fuel ?P \<lparr>csp_of = c, trace = tr, step = 0, rng = g'\<rparr> [] =
      map_option (map_sum id (\<lambda>(r, s, b). (r, s\<lparr>rng := g'\<rparr>, b))) (backtrack fuel ?P ?st [])"
    by simp
  show ?thesis
  proof (cases "backtrack fuel ?P ?st []")
    case None
    with b show ?thesis by (simp add: backtracking_search_def)
  next
    case (Some res)
    show ?thesis
    proof (cases res)
      case (Inl e)
      with b Some show ?thesis by (simp add: backtracking_search_def)
    next
      case (Inr t)
      obtain r st a where t: "t = (r, st, a)" by (cases t)
      show ?thesis
      proof (cases r)
        case None
        with b Some Inr t show ?thesis by (simp add: backtracking_search_def)
      next
        case found: (Some x)
        show ?thesis
        proof (cases "is_goal (csp_of st) x")
          case (Inl e)
          with b Some Inr t found show ?thesis by (simp add: backtracking_search_def)
        next
          case ok: (Inr y)
          with b Some Inr t found show ?thesis by (simp add: backtracking_search_def)
        qed
      qed
    qed
  qed
qed

lemma two_regions_traced_run:
  "solution_and_trace (backtracking_search 3 two_regions first_unassigned_variable lcv
      forward_checking (Some []) None (\<lambda>_. 0)) =
   Some (Inr (Some [(''A'', CHR ''R''), (''B'', CHR ''G'')],
     Some [\<lparr>ev_step = 1, ev_depth = 0, ev_event = TRY, ev_var = Some ''A'',
             ev_val = Some CHR ''R'', ev_assignment = []\<rparr>,
           \<lparr>ev_step = 2, ev_depth = 1, ev_event = ASSIGN, ev_var = Some ''A'',
             ev_val = Some CHR ''R'', ev_assignment = [(''A'', CHR ''R'')]\<rparr>,
           \<lparr>ev_step = 3, ev_depth = 1, ev_event = TRY, ev_var = Some ''B'',
             ev_val = Some CHR ''G'', ev_assignment = [(''A'', CHR ''R'')]\<rparr>,
           \<lparr>ev_step = 4, ev_depth = 2, ev_event = ASSIGN, ev_var = Some ''B'',
             ev_val = Some CHR ''G'', ev_assignment = [(''A'', CHR ''R''), (''B'', CHR ''G'')]\<rparr>,
           \<lparr>ev_step = 5, ev_depth = 2, ev_event = GOAL, ev_var = None,
             ev_val = None, ev_assignment = [(''A'', CHR ''R''), (''B'', CHR ''G'')]\<rparr>]))"
  by (simp add: solution_and_trace_def engine_defs two_regions_def numeral_3_eq_3)

lemma two_regions_mrv_runs:
  "solution_and_trace (backtracking_search 3 two_regions mrv lcv forward_checking None None (\<lambda>_. 0)) =
     Some (Inr (Some [(''A'', CHR ''R''), (''B'', CHR ''G'')], None))"
  "solution_and_trace (backtracking_search 3 two_regions mrv lcv forward_checking None None (\<lambda>_. 1)) =
     Some (Inr (Some [(''B'', CHR ''R''), (''A'', CHR ''G'')], None))"
  by (simp_all add: solution_and_trace_def engine_defs two_regions_def numeral_3_eq_3)

text \<open>
  C9. With \<open>first_unassigned_variable\<close>, \<open>lcv\<close> and an inference strategy that is a function
  of its arguments, a run of \<open>backtracking_search\<close> does not depend on the one input that
  the caller does not pass, the state of the random generator: started from another state
  \<open>g'\<close>, the run has the same outcome (the result, the error or the exhaustion of the
  bound) with the same final CSP, trace and step counter, and leaves the generator as it
  found it. So two invocations on equal inputs yield the same solution and the same sequence
  of trace events.
\<close>

theorem deterministic_search:
  "backtracking_search fuel c first_unassigned_variable lcv infr tr ms g' =
     map_option (map_sum id (\<lambda>(r, st). (r, st\<lparr>rng := g'\<rparr>)))
       (backtracking_search fuel c first_unassigned_variable lcv infr tr ms g) \<and>
   solution_and_trace (backtracking_search fuel c first_unassigned_variable lcv infr tr ms g') =
     solution_and_trace (backtracking_search fuel c first_unassigned_variable lcv infr tr ms g)"
proof
  show eq: "backtracking_search fuel c first_unassigned_variable lcv infr tr ms g' =
     map_option (map_sum id (\<lambda>(r, st). (r, st\<lparr>rng := g'\<rparr>)))
       (backtracking_search fuel c first_unassigned_variable lcv infr tr ms g)"
    by (rule search_rng)
  show "solution_and_trace (backtracking_search fuel c first_unassigned_variable lcv infr tr ms g') =
     solution_and_trace (backtracking_search fuel c first_unassigned_variable lcv infr tr ms g)"
    unfolding eq solution_and_trace_def
    by (cases "backtracking_search fuel c first_unassigned_variable lcv infr tr ms g")
       (auto simp: map_sum_def split: sum.splits)
qed

theorem deterministic_search_witness:
  "solution_and_trace (backtracking_search 3 two_regions first_unassigned_variable lcv
      forward_checking (Some []) None (\<lambda>_. 1)) =
   Some (Inr (Some [(''A'', CHR ''R''), (''B'', CHR ''G'')],
     Some [\<lparr>ev_step = 1, ev_depth = 0, ev_event = TRY, ev_var = Some ''A'',
             ev_val = Some CHR ''R'', ev_assignment = []\<rparr>,
           \<lparr>ev_step = 2, ev_depth = 1, ev_event = ASSIGN, ev_var = Some ''A'',
             ev_val = Some CHR ''R'', ev_assignment = [(''A'', CHR ''R'')]\<rparr>,
           \<lparr>ev_step = 3, ev_depth = 1, ev_event = TRY, ev_var = Some ''B'',
             ev_val = Some CHR ''G'', ev_assignment = [(''A'', CHR ''R'')]\<rparr>,
           \<lparr>ev_step = 4, ev_depth = 2, ev_event = ASSIGN, ev_var = Some ''B'',
             ev_val = Some CHR ''G'', ev_assignment = [(''A'', CHR ''R''), (''B'', CHR ''G'')]\<rparr>,
           \<lparr>ev_step = 5, ev_depth = 2, ev_event = GOAL, ev_var = None,
             ev_val = None, ev_assignment = [(''A'', CHR ''R''), (''B'', CHR ''G'')]\<rparr>])) \<and>
   solution_and_trace (backtracking_search 3 two_regions mrv lcv forward_checking None None (\<lambda>_. 0)) \<noteq>
   solution_and_trace (backtracking_search 3 two_regions mrv lcv forward_checking None None (\<lambda>_. 1))"
proof
  show "solution_and_trace (backtracking_search 3 two_regions first_unassigned_variable lcv
      forward_checking (Some []) None (\<lambda>_. 1)) =
   Some (Inr (Some [(''A'', CHR ''R''), (''B'', CHR ''G'')],
     Some [\<lparr>ev_step = 1, ev_depth = 0, ev_event = TRY, ev_var = Some ''A'',
             ev_val = Some CHR ''R'', ev_assignment = []\<rparr>,
           \<lparr>ev_step = 2, ev_depth = 1, ev_event = ASSIGN, ev_var = Some ''A'',
             ev_val = Some CHR ''R'', ev_assignment = [(''A'', CHR ''R'')]\<rparr>,
           \<lparr>ev_step = 3, ev_depth = 1, ev_event = TRY, ev_var = Some ''B'',
             ev_val = Some CHR ''G'', ev_assignment = [(''A'', CHR ''R'')]\<rparr>,
           \<lparr>ev_step = 4, ev_depth = 2, ev_event = ASSIGN, ev_var = Some ''B'',
             ev_val = Some CHR ''G'', ev_assignment = [(''A'', CHR ''R''), (''B'', CHR ''G'')]\<rparr>,
           \<lparr>ev_step = 5, ev_depth = 2, ev_event = GOAL, ev_var = None,
             ev_val = None, ev_assignment = [(''A'', CHR ''R''), (''B'', CHR ''G'')]\<rparr>]))"
    unfolding deterministic_search[where g' = "\<lambda>_. 1" and g = "\<lambda>_. 0", THEN conjunct2]
    by (rule two_regions_traced_run)
  show "solution_and_trace (backtracking_search 3 two_regions mrv lcv forward_checking None None (\<lambda>_. 0)) \<noteq>
   solution_and_trace (backtracking_search 3 two_regions mrv lcv forward_checking None None (\<lambda>_. 1))"
    unfolding two_regions_mrv_runs by simp
qed

end
